theory Spec2Isabelle
  imports Complex_Main "HOL-Library.Monad_Syntax"
begin

section \<open>JavaScript string primitives used by the provider code\<close>

text \<open>
  Text is modelled as \<^typ>\<open>string\<close>, a list of 8-bit characters. The white space that
  \<^verbatim>\<open>String.prototype.trim\<close> removes is restricted to the ASCII white space characters
  (TAB, LF, VT, FF, CR, SPACE).
\<close>

definition is_ws :: "char \<Rightarrow> bool" where
  "is_ws c = (c = CHR 0x09 \<or> c = CHR 0x0A \<or> c = CHR 0x0B \<or> c = CHR 0x0C \<or> c = CHR 0x0D \<or> c = CHR '' '')"

definition trim :: "string \<Rightarrow> string" where
  "trim s = rev (dropWhile is_ws (rev (dropWhile is_ws s)))"

text \<open>\<^verbatim>\<open>s.startsWith(p)\<close>.\<close>

definition startsWith :: "string \<Rightarrow> string \<Rightarrow> bool" where
  "startsWith s p = (take (length p) s = p)"

text \<open>\<^verbatim>\<open>s.indexOf(p)\<close>, with \<open>None\<close> for the result \<open>-1\<close>.\<close>

fun indexOf :: "string \<Rightarrow> string \<Rightarrow> nat option" where
  "indexOf [] p = (if p = [] then Some 0 else None)"
| "indexOf (c # cs) p =
     (if startsWith (c # cs) p then Some 0 else map_option Suc (indexOf cs p))"

text \<open>\<^verbatim>\<open>s.includes(p)\<close>.\<close>

definition includesStr :: "string \<Rightarrow> string \<Rightarrow> bool" where
  "includesStr s p = (indexOf s p \<noteq> None)"

text \<open>
  The replacement text of \<^verbatim>\<open>replaceAll(pattern, replacement)\<close> with a string pattern
  and a string replacement (ECMA-262, GetSubstitution): in the replacement,
  \<^verbatim>\<open>$$\<close> stands for one dollar sign, \<^verbatim>\<open>$&\<close> for the matched text,
  \<^verbatim>\<open>$`\<close> for the text before the match and \<^verbatim>\<open>$'\<close> for the text after it.
  A string pattern has no capture groups, so \<^verbatim>\<open>$1\<close> and \<^verbatim>\<open>$<name>\<close> stay as
  they are, like a dollar sign before any other character.
\<close>

fun getSubstitution :: "string \<Rightarrow> string \<Rightarrow> string \<Rightarrow> string \<Rightarrow> string" where
  "getSubstitution m pre post [] = []"
| "getSubstitution m pre post [c] = [c]"
| "getSubstitution m pre post (c # d # rest) =
     (if c = CHR ''$'' \<and> d = CHR ''$'' then CHR ''$'' # getSubstitution m pre post rest
      else if c = CHR ''$'' \<and> d = CHR ''&'' then m @ getSubstitution m pre post rest
      else if c = CHR ''$'' \<and> d = CHR 0x60 then pre @ getSubstitution m pre post rest
      else if c = CHR ''$'' \<and> d = CHR 0x27 then post @ getSubstitution m pre post rest
      else c # getSubstitution m pre post (d # rest))"

text \<open>
  \<^verbatim>\<open>s.replaceAll(p, r)\<close> for a string pattern: the matches are found from left to
  right without overlap, the search resuming after each match (one character further for
  the empty pattern). \<open>pre\<close> is the part of the original string already passed.
\<close>

function replaceAll_from :: "string \<Rightarrow> string \<Rightarrow> string \<Rightarrow> string \<Rightarrow> string" where
  "replaceAll_from p r pre [] = (if p = [] then getSubstitution [] pre [] r else [])"
| "replaceAll_from p r pre (c # cs) =
     (if startsWith (c # cs) p then
        getSubstitution p pre (drop (length p) (c # cs)) r @
          (if p = [] then c # replaceAll_from p r (pre @ [c]) cs
           else replaceAll_from p r (pre @ p) (drop (length p) (c # cs)))
      else c # replaceAll_from p r (pre @ [c]) cs)"
  by pat_completeness auto
termination
  by (relation "measure (\<lambda>(p, r, pre, s). length s)") auto

definition replaceAll :: "string \<Rightarrow> string \<Rightarrow> string \<Rightarrow> string" where
  "replaceAll s p r = replaceAll_from p r [] s"

section \<open>Prompt substitution\<close>

text \<open>\<^verbatim>\<open>applyPromptToArgs\<close> of the provider SDK.\<close>

definition applyPromptToArgs :: "string list \<Rightarrow> string \<Rightarrow> bool \<Rightarrow> string list" where
  "applyPromptToArgs args prompt appendPromptIfMissing =
     (let hasPlaceholder = list_ex (\<lambda>arg. includesStr arg ''{prompt}'') args;
          resolved = map (\<lambda>arg. if includesStr arg ''{prompt}''
                                 then replaceAll arg ''{prompt}'' prompt else arg) args
      in if appendPromptIfMissing \<and> \<not> hasPlaceholder then resolved @ [prompt] else resolved)"

text \<open>\<^verbatim>\<open>applyPrompt\<close> of the agent server: the same loop, steered by the stdin flag.\<close>

definition applyPrompt :: "string list \<Rightarrow> string \<Rightarrow> bool \<Rightarrow> string list" where
  "applyPrompt args prompt stdinMode =
     (let hasPlaceholder = list_ex (\<lambda>arg. includesStr arg ''{prompt}'') args;
          replaced = map (\<lambda>arg. if includesStr arg ''{prompt}''
                                 then replaceAll arg ''{prompt}'' prompt else arg) args
      in if \<not> stdinMode \<and> \<not> hasPlaceholder then replaced @ [prompt] else replaced)"

text \<open>\<^verbatim>\<open>parts.join(sep)\<close>.\<close>

fun join :: "string \<Rightarrow> string list \<Rightarrow> string" where
  "join sep [] = []"
| "join sep [x] = x"
| "join sep (x # y # ys) = x @ sep @ join sep (y # ys)"

section \<open>JSON values and heuristic text extraction\<close>

text \<open>
  The values \<^verbatim>\<open>JSON.parse\<close> returns. An object lists its own properties in
  enumeration order, each key once. A number is kept as the exact rational its literal
  denotes (the rounding to a double is not modelled).
\<close>

datatype json =
    JNull
  | JBool bool
  | JNum rat
  | JStr string
  | JArr "json list"
  | JObj "(string \<times> json) list"

definition preferredKeys :: "string list" where
  "preferredKeys = [''text'', ''message'', ''output'', ''response'', ''result'', ''completion'', ''content'']"

text \<open>
  \<^verbatim>\<open>extractTextFromUnknown\<close> (the provider SDK and the agent server carry the same
  function: the server's two \<^verbatim>\<open>for\<close> loops return at the first non-empty text, which
  is what \<^verbatim>\<open>find\<close> over the mapped values returns). Reading a missing property gives
  \<^verbatim>\<open>undefined\<close>, for which the function returns the empty string.
\<close>

function (domintros) extractTextFromUnknown :: "json \<Rightarrow> string" where
  "extractTextFromUnknown (JStr s) = s"
| "extractTextFromUnknown (JArr items) =
     trim (join ''\<newline>'' (filter (\<lambda>t. t \<noteq> []) (map extractTextFromUnknown items)))"
| "extractTextFromUnknown (JObj props) =
     (case find (\<lambda>t. t \<noteq> [])
             (map (\<lambda>key. case map_of props key of
                             None \<Rightarrow> []
                           | Some direct \<Rightarrow> extractTextFromUnknown direct) preferredKeys) of
        Some text \<Rightarrow> text
      | None \<Rightarrow>
          (case find (\<lambda>t. t \<noteq> []) (map (\<lambda>item. extractTextFromUnknown (snd item)) props) of
             Some nested \<Rightarrow> nested
           | None \<Rightarrow> []))"
| "extractTextFromUnknown JNull = []"
| "extractTextFromUnknown (JBool b) = []"
| "extractTextFromUnknown (JNum n) = []"
  by pat_completeness auto

lemma json_size_item: "v \<in> set items \<Longrightarrow> size v < size (JArr items)"
  by (induction items) auto

lemma json_size_prop: "(k, v) \<in> set props \<Longrightarrow> size v < size (JObj props)"
  by (induction props) auto

lemma extractTextFromUnknown_dom_all: "extractTextFromUnknown_dom v"
proof (induction v rule: measure_induct_rule [of size])
  case (less v)
  show ?case
  proof (cases v)
    case (JArr items)
    then show ?thesis
      using less json_size_item by (auto intro!: extractTextFromUnknown.domintros)
  next
    case (JObj props)
    then show ?thesis
      using less json_size_prop
      by (auto intro!: extractTextFromUnknown.domintros dest!: map_of_SomeD)
  qed (auto intro: extractTextFromUnknown.domintros)
qed

termination extractTextFromUnknown
  by (simp add: extractTextFromUnknown_dom_all)

section \<open>Numbers in template strings\<close>

text \<open>
  A template string renders an integral number in decimal digits. Exit codes and the time
  limit are integers.
\<close>

definition digitChar :: "nat \<Rightarrow> char" where
  "digitChar d = ''0123456789'' ! d"

function showNat :: "nat \<Rightarrow> string" where
  "showNat n = (if n < 10 then [digitChar n] else showNat (n div 10) @ [digitChar (n mod 10)])"
  by pat_completeness auto
termination
  by (relation "measure (\<lambda>n. n)") auto

definition showInt :: "int \<Rightarrow> string" where
  "showInt i = (if i < 0 then CHR ''-'' # showNat (nat (- i)) else showNat (nat i))"

section \<open>Failure text of a command that exits with a nonzero code\<close>

text \<open>
  The expression \<^verbatim>\<open>stderr.trim() || stdout.trim() || `exit code ${code}`\<close>, which both
  the CLI-wrapped adapter and the wrapped-command server evaluate.
\<close>

definition errorText :: "string \<Rightarrow> string \<Rightarrow> int \<Rightarrow> string" where
  "errorText stdout stderr exitCode =
     (if trim stderr \<noteq> [] then trim stderr
      else if trim stdout \<noteq> [] then trim stdout
      else ''exit code '' @ showInt exitCode)"

text \<open>
  The message of the error that \<^verbatim>\<open>CliWrappedProviderAdapter.sendMessageStream\<close> throws
  for a nonzero exit code: \<^verbatim>\<open>`${this.kind} command failed: ${errorText}`\<close>.
\<close>

definition adapterFailureMessage :: "string \<Rightarrow> string \<Rightarrow> string \<Rightarrow> int \<Rightarrow> string" where
  "adapterFailureMessage kind stdout stderr exitCode =
     kind @ '' command failed: '' @ errorText stdout stderr exitCode"

text \<open>
  The message with which the close handler of \<^verbatim>\<open>runWrappedCommandPrompt\<close> rejects for
  a nonzero exit code.
\<close>

definition wrappedFailureMessage :: "string \<Rightarrow> string \<Rightarrow> int \<Rightarrow> string" where
  "wrappedFailureMessage stdout stderr code = errorText stdout stderr code"

section \<open>Chunking the output into tokens\<close>

text \<open>\<^verbatim>\<open>s.split(/\r?\n/)\<close>: the separators are LF and CR LF.\<close>

fun splitLines_from :: "string \<Rightarrow> string \<Rightarrow> string list" where
  "splitLines_from cur [] = [cur]"
| "splitLines_from cur [c] = (if c = CHR 0x0A then [cur, []] else [cur @ [c]])"
| "splitLines_from cur (c # d # rest) =
     (if c = CHR 0x0A then cur # splitLines_from [] (d # rest)
      else if c = CHR 0x0D \<and> d = CHR 0x0A then cur # splitLines_from [] rest
      else splitLines_from (cur @ [c]) (d # rest))"

definition splitLines :: "string \<Rightarrow> string list" where
  "splitLines s = splitLines_from [] s"

text \<open>\<^verbatim>\<open>chunkText\<close> of the provider SDK.\<close>

definition chunkText :: "string \<Rightarrow> string list" where
  "chunkText text =
     (let trimmed = trim text in
      if trimmed = [] then []
      else
        let lines = filter (\<lambda>line. line \<noteq> []) (splitLines trimmed) in
        if length lines \<le> 1 then [trimmed]
        else map (\<lambda>(index, line). if index < length lines - 1 then line @ ''\<newline>'' else line)
               (enumerate 0 lines))"

text \<open>
  The token texts that \<^verbatim>\<open>runWrappedCommandStream\<close> of the agent server yields for the
  output of the wrapped command.
\<close>

definition wrappedTokens :: "string \<Rightarrow> string list" where
  "wrappedTokens output =
     (if output \<noteq> [] then
        map (\<lambda>line. line @ ''\<newline>'') (filter (\<lambda>line. line \<noteq> []) (splitLines output))
      else [])"

section \<open>The CLI process wrapper\<close>

text \<open>
  \<^verbatim>\<open>runCliCommand\<close> returns a promise and registers handlers on the child process and
  on a timer. The model is the state the handlers share and one step function for the
  handlers: \<open>settled\<close> records every call of \<^verbatim>\<open>resolve\<close> or \<^verbatim>\<open>reject\<close> in order,
  \<open>kills\<close> counts the calls of \<^verbatim>\<open>child.kill("SIGTERM")\<close>. The order in which the
  signals arrive is the order of the list that \<open>runCliCommand\<close> folds over.
\<close>

datatype 'a settlement = Resolved 'a | Rejected string

datatype signal =
    TimerFired
  | ChildError string
  | ChildClose "int option"
  | StdoutData string
  | StderrData string

record 'a proc_state =
  stdoutText :: string
  stderrText :: string
  completed :: bool
  settled :: "'a settlement list"
  kills :: nat
  timerCleared :: bool

definition initial_state :: "'a proc_state" where
  "initial_state =
     \<lparr>stdoutText = [], stderrText = [], completed = False, settled = [], kills = 0,
      timerCleared = False\<rparr>"

text \<open>\<^verbatim>\<open>code ?? 0\<close>: the exit code is \<^verbatim>\<open>null\<close> when a signal ends the child.\<close>

definition orZero :: "int option \<Rightarrow> int" where
  "orZero code = (case code of None \<Rightarrow> 0 | Some c \<Rightarrow> c)"

text \<open>The handlers of \<^verbatim>\<open>runCliCommand\<close> (provider SDK).\<close>

fun runCliCommand_step ::
  "nat \<Rightarrow> string \<Rightarrow> (string \<times> string \<times> int) proc_state \<Rightarrow> signal
    \<Rightarrow> (string \<times> string \<times> int) proc_state" where
  "runCliCommand_step timeoutMs command st TimerFired =
     (if completed st then st
      else st\<lparr>completed := True, kills := kills st + 1,
              settled := settled st @
                [Rejected (''CLI command timed out after '' @ showNat timeoutMs @ ''ms: '' @ command)]\<rparr>)"
| "runCliCommand_step timeoutMs command st (StdoutData chunk) =
     st\<lparr>stdoutText := stdoutText st @ chunk\<rparr>"
| "runCliCommand_step timeoutMs command st (StderrData chunk) =
     st\<lparr>stderrText := stderrText st @ chunk\<rparr>"
| "runCliCommand_step timeoutMs command st (ChildError message) =
     (if completed st then st
      else st\<lparr>completed := True, timerCleared := True,
              settled := settled st @ [Rejected message]\<rparr>)"
| "runCliCommand_step timeoutMs command st (ChildClose code) =
     (if completed st then st
      else st\<lparr>completed := True, timerCleared := True,
              settled := settled st @
                [Resolved (stdoutText st, stderrText st, orZero code)]\<rparr>)"

definition runCliCommand :: "nat \<Rightarrow> string \<Rightarrow> signal list \<Rightarrow> (string \<times> string \<times> int) proc_state" where
  "runCliCommand timeoutMs command signals =
     foldl (runCliCommand_step timeoutMs command) initial_state signals"

text \<open>The three signals that may complete the operation.\<close>

fun terminal :: "signal \<Rightarrow> bool" where
  "terminal TimerFired = True"
| "terminal (ChildError message) = True"
| "terminal (ChildClose code) = True"
| "terminal (StdoutData chunk) = False"
| "terminal (StderrData chunk) = False"

section \<open>JSON.parse\<close>

text \<open>
  \<^verbatim>\<open>JSON.parse\<close> belongs to the language, not to the repository. It is modelled as a
  recursive-descent parser of the JSON grammar (ECMA-404), with \<open>None\<close> for a
  \<^verbatim>\<open>SyntaxError\<close>. Characters are bytes: an escape \<^verbatim>\<open>\uXXXX\<close> above \<^verbatim>\<open>007F\<close> yields
  the UTF-8 bytes of that code unit.
\<close>

definition json_ws :: "char \<Rightarrow> bool" where
  "json_ws c = (c = CHR '' '' \<or> c = CHR 0x09 \<or> c = CHR 0x0A \<or> c = CHR 0x0D)"

definition skip_ws :: "string \<Rightarrow> string" where
  "skip_ws s = dropWhile json_ws s"

definition is_digit :: "char \<Rightarrow> bool" where
  "is_digit c = (c \<in> set ''0123456789'')"

definition digit_val :: "char \<Rightarrow> nat" where
  "digit_val c = of_char c - 48"

definition nat_of_digits :: "string \<Rightarrow> nat" where
  "nat_of_digits ds = foldl (\<lambda>n c. 10 * n + digit_val c) 0 ds"

definition hex_val :: "char \<Rightarrow> nat option" where
  "hex_val c =
     (if c \<in> set ''0123456789'' then Some (of_char c - 48)
      else if c \<in> set ''abcdef'' then Some (of_char c - 87)
      else if c \<in> set ''ABCDEF'' then Some (of_char c - 55)
      else None)"

fun hex4 :: "string \<Rightarrow> nat option" where
  "hex4 [a, b, c, d] =
     (case (hex_val a, hex_val b, hex_val c, hex_val d) of
        (Some x, Some y, Some z, Some w) \<Rightarrow> Some (((x * 16 + y) * 16 + z) * 16 + w)
      | _ \<Rightarrow> None)"
| "hex4 _ = None"

text \<open>The bytes of a code unit given by a \<^verbatim>\<open>\uXXXX\<close> escape.\<close>

definition code_unit_bytes :: "nat \<Rightarrow> string" where
  "code_unit_bytes n =
     (if n < 0x80 then [char_of n]
      else if n < 0x800 then [char_of (0xC0 + n div 64), char_of (0x80 + n mod 64)]
      else [char_of (0xE0 + n div 4096), char_of (0x80 + (n div 64) mod 64),
            char_of (0x80 + n mod 64)])"

definition unescape :: "char \<Rightarrow> char option" where
  "unescape e =
     (if e = CHR 0x22 then Some (CHR 0x22)
      else if e = CHR 0x5C then Some (CHR 0x5C)
      else if e = CHR ''/'' then Some (CHR ''/'')
      else if e = CHR ''b'' then Some (CHR 0x08)
      else if e = CHR ''f'' then Some (CHR 0x0C)
      else if e = CHR ''n'' then Some (CHR 0x0A)
      else if e = CHR ''r'' then Some (CHR 0x0D)
      else if e = CHR ''t'' then Some (CHR 0x09)
      else None)"

text \<open>The characters of a string literal, after its opening quote, up to its closing quote.\<close>

function parse_chars :: "string \<Rightarrow> (string \<times> string) option" where
  "parse_chars [] = None"
| "parse_chars (c # cs) =
     (if c = CHR 0x22 then Some ([], cs)
      else if c = CHR 0x5C then
        (case cs of
           [] \<Rightarrow> None
         | e # es \<Rightarrow>
             if e = CHR ''u'' then
               (case hex4 (take 4 es) of
                  None \<Rightarrow> None
                | Some n \<Rightarrow> map_option (apfst ((@) (code_unit_bytes n))) (parse_chars (drop 4 es)))
             else
               (case unescape e of
                  None \<Rightarrow> None
                | Some ch \<Rightarrow> map_option (apfst ((#) ch)) (parse_chars es)))
      else if (of_char c :: nat) < 0x20 then None
      else map_option (apfst ((#) c)) (parse_chars cs))"
  by pat_completeness auto
termination
  by (relation "measure length") auto

text \<open>
  A number literal: an optional minus sign, the integer part (a single zero, or digits
  that do not start with zero), an optional fraction and an optional exponent.
\<close>

definition number_frac :: "string \<Rightarrow> (string \<times> string) option" where
  "number_frac s =
     (case s of
        c # cs \<Rightarrow>
          if c = CHR ''.'' then
            (let ds = takeWhile is_digit cs in
             if ds = [] then None else Some (ds, dropWhile is_digit cs))
          else Some ([], s)
      | [] \<Rightarrow> Some ([], s))"

definition number_exp :: "string \<Rightarrow> (int \<times> string) option" where
  "number_exp s =
     (case s of
        c # cs \<Rightarrow>
          if c = CHR ''e'' \<or> c = CHR ''E'' then
            (let neg = (case cs of d # ds \<Rightarrow> d = CHR ''-'' | [] \<Rightarrow> False);
                 signed = (case cs of d # ds \<Rightarrow> d = CHR ''-'' \<or> d = CHR ''+'' | [] \<Rightarrow> False);
                 body = (if signed then tl cs else cs);
                 ds = takeWhile is_digit body
             in if ds = [] then None
                else Some ((if neg then - int (nat_of_digits ds) else int (nat_of_digits ds)),
                           dropWhile is_digit body))
          else Some (0, s)
      | [] \<Rightarrow> Some (0, s))"

definition scale10 :: "rat \<Rightarrow> int \<Rightarrow> rat" where
  "scale10 x k = (if 0 \<le> k then x * 10 ^ nat k else x / 10 ^ nat (- k))"

definition parse_number :: "string \<Rightarrow> (rat \<times> string) option" where
  "parse_number s =
     (let neg = (case s of c # cs \<Rightarrow> c = CHR ''-'' | [] \<Rightarrow> False);
          s1 = (if neg then tl s else s);
          intDigits = (case s1 of c # cs \<Rightarrow> if c = CHR ''0'' then [c] else takeWhile is_digit s1
                       | [] \<Rightarrow> [])
      in if intDigits = [] then None
         else
           (case number_frac (drop (length intDigits) s1) of
              None \<Rightarrow> None
            | Some (fracDigits, s2) \<Rightarrow>
                (case number_exp s2 of
                   None \<Rightarrow> None
                 | Some (e, s3) \<Rightarrow>
                     let m = of_nat (nat_of_digits (intDigits @ fracDigits));
                         x = scale10 m (e - int (length fracDigits))
                     in Some ((if neg then - x else x), s3))))"

text \<open>A value that is not an array or an object; \<open>s\<close> starts with its first character.\<close>

definition parse_scalar :: "string \<Rightarrow> (json \<times> string) option" where
  "parse_scalar s =
     (case s of
        [] \<Rightarrow> None
      | c # cs \<Rightarrow>
          if c = CHR 0x22 then map_option (apfst JStr) (parse_chars cs)
          else if startsWith s ''true'' then Some (JBool True, drop 4 s)
          else if startsWith s ''false'' then Some (JBool False, drop 5 s)
          else if startsWith s ''null'' then Some (JNull, drop 4 s)
          else map_option (apfst JNum) (parse_number s))"

text \<open>
  Defining a property of the object under construction. A key that is already there keeps
  its place and takes the new value. Array-index keys (canonical numerals below
  \<open>2\<^sup>3\<^sup>2 - 1\<close>) are enumerated first, in ascending order; the other keys follow in the
  order of their creation.
\<close>

definition isArrayIndex :: "string \<Rightarrow> bool" where
  "isArrayIndex k =
     (k \<noteq> [] \<and> list_all is_digit k \<and> (k = ''0'' \<or> hd k \<noteq> CHR ''0'') \<and>
      nat_of_digits k < 4294967295)"

definition setProperty :: "(string \<times> json) list \<Rightarrow> string \<Rightarrow> json \<Rightarrow> (string \<times> json) list" where
  "setProperty props k v =
     (if k \<in> set (map fst props) then map (\<lambda>(k', v'). if k' = k then (k', v) else (k', v')) props
      else if isArrayIndex k then
        takeWhile (\<lambda>(k', v'). isArrayIndex k' \<and> nat_of_digits k' < nat_of_digits k) props @
        [(k, v)] @
        dropWhile (\<lambda>(k', v'). isArrayIndex k' \<and> nat_of_digits k' < nat_of_digits k) props
      else props @ [(k, v)])"

text \<open>
  Values, the elements of an array after its opening bracket, and the members of an
  object after its opening brace. The first argument bounds the number of nested calls;
  \<open>JSON_parse\<close> starts with the length of the text, which is enough since every value,
  every element and every member takes at least one character.
\<close>

fun parse_value :: "nat \<Rightarrow> string \<Rightarrow> (json \<times> string) option"
  and parse_elements :: "nat \<Rightarrow> string \<Rightarrow> (json list \<times> string) option"
  and parse_members :: "nat \<Rightarrow> (string \<times> json) list \<Rightarrow> string \<Rightarrow> ((string \<times> json) list \<times> string) option"
where
  "parse_value 0 s = None"
| "parse_value (Suc n) s =
     (case skip_ws s of
        [] \<Rightarrow> None
      | c # cs \<Rightarrow>
          if c = CHR ''['' then
            (case skip_ws cs of
               [] \<Rightarrow> None
             | d # ds \<Rightarrow>
                 if d = CHR '']'' then Some (JArr [], ds)
                 else map_option (apfst JArr) (parse_elements n (d # ds)))
          else if c = CHR ''{'' then
            (case skip_ws cs of
               [] \<Rightarrow> None
             | d # ds \<Rightarrow>
                 if d = CHR ''}'' then Some (JObj [], ds)
                 else map_option (apfst JObj) (parse_members n [] (d # ds)))
          else parse_scalar (c # cs))"
| "parse_elements 0 s = None"
| "parse_elements (Suc n) s =
     (case parse_value n s of
        None \<Rightarrow> None
      | Some (v, rest) \<Rightarrow>
          (case skip_ws rest of
             [] \<Rightarrow> None
           | c # cs \<Rightarrow>
               if c = CHR '','' then map_option (apfst ((#) v)) (parse_elements n cs)
               else if c = CHR '']'' then Some ([v], cs)
               else None))"
| "parse_members 0 props s = None"
| "parse_members (Suc n) props s =
     (case skip_ws s of
        [] \<Rightarrow> None
      | q # ks \<Rightarrow>
          if q \<noteq> CHR 0x22 then None
          else
            (case parse_chars ks of
               None \<Rightarrow> None
             | Some (key, afterKey) \<Rightarrow>
                 (case skip_ws afterKey of
                    [] \<Rightarrow> None
                  | colon # vs \<Rightarrow>
                      if colon \<noteq> CHR '':'' then None
                      else
                        (case parse_value n vs of
                           None \<Rightarrow> None
                         | Some (v, rest) \<Rightarrow>
                             (case skip_ws rest of
                                [] \<Rightarrow> None
                              | c # cs \<Rightarrow>
                                  if c = CHR '','' then parse_members n (setProperty props key v) cs
                                  else if c = CHR ''}'' then Some (setProperty props key v, cs)
                                  else None)))))"

definition JSON_parse :: "string \<Rightarrow> json option" where
  "JSON_parse s =
     (case parse_value (length s) s of
        None \<Rightarrow> None
      | Some (v, rest) \<Rightarrow> if skip_ws rest = [] then Some v else None)"

section \<open>The output normalizer\<close>

datatype CliParseMode = TextMode | JsonMode

text \<open>
  \<^verbatim>\<open>normalizeCliOutput\<close> of the provider SDK; \<^verbatim>\<open>normalizeWrappedOutput\<close> of the agent
  server is the same function (it trims and skips the blank lines inside its loop).
\<close>

definition normalizeCliOutput :: "string \<Rightarrow> string \<Rightarrow> CliParseMode \<Rightarrow> string" where
  "normalizeCliOutput stdout stderr parseMode =
     (let trimmedStdout = trim stdout;
          plain = (if trimmedStdout \<noteq> [] then trimmedStdout else trim stderr)
      in if parseMode = JsonMode \<and> trimmedStdout \<noteq> [] then
           (case JSON_parse trimmedStdout of
              Some parsed \<Rightarrow>
                (let text = trim (extractTextFromUnknown parsed) in
                 if text \<noteq> [] then text else plain)
            | None \<Rightarrow>
                (let lines = filter (\<lambda>line. line \<noteq> []) (map trim (splitLines trimmedStdout));
                     parts = concat (map (\<lambda>line.
                               case JSON_parse line of
                                 Some parsed \<Rightarrow>
                                   (let text = trim (extractTextFromUnknown parsed) in
                                    if text \<noteq> [] then [text] else [])
                               | None \<Rightarrow> []) lines)
                 in if parts \<noteq> [] then join ''\<newline>'' parts else plain))
         else plain)"

text \<open>
  The handlers of \<^verbatim>\<open>runWrappedCommandPrompt\<close> (agent server). Its close handler decides
  between failure and success itself; \<^verbatim>\<open>normalizeWrappedOutput\<close> is \<open>normalizeCliOutput\<close>.
\<close>

fun runWrappedCommandPrompt_step ::
  "nat \<Rightarrow> CliParseMode \<Rightarrow> string proc_state \<Rightarrow> signal \<Rightarrow> string proc_state" where
  "runWrappedCommandPrompt_step timeoutMs parse st TimerFired =
     (if completed st then st
      else st\<lparr>completed := True, kills := kills st + 1,
              settled := settled st @
                [Rejected (''Wrapped command timed out after '' @ showNat timeoutMs @ ''ms'')]\<rparr>)"
| "runWrappedCommandPrompt_step timeoutMs parse st (StdoutData chunk) =
     st\<lparr>stdoutText := stdoutText st @ chunk\<rparr>"
| "runWrappedCommandPrompt_step timeoutMs parse st (StderrData chunk) =
     st\<lparr>stderrText := stderrText st @ chunk\<rparr>"
| "runWrappedCommandPrompt_step timeoutMs parse st (ChildError message) =
     (if completed st then st
      else st\<lparr>completed := True, timerCleared := True,
              settled := settled st @ [Rejected message]\<rparr>)"
| "runWrappedCommandPrompt_step timeoutMs parse st (ChildClose code) =
     (if completed st then st
      else
        (let st' = st\<lparr>completed := True, timerCleared := True\<rparr> in
         if orZero code \<noteq> 0 then
           st'\<lparr>settled := settled st @
                 [Rejected (wrappedFailureMessage (stdoutText st) (stderrText st) (orZero code))]\<rparr>
         else
           st'\<lparr>settled := settled st @
                 [Resolved (normalizeCliOutput (stdoutText st) (stderrText st) parse)]\<rparr>))"

definition runWrappedCommandPrompt :: "nat \<Rightarrow> CliParseMode \<Rightarrow> signal list \<Rightarrow> string proc_state" where
  "runWrappedCommandPrompt timeoutMs parse signals =
     foldl (runWrappedCommandPrompt_step timeoutMs parse) initial_state signals"

section \<open>The event protocol\<close>

datatype AttachmentKind = Image | File

text \<open>The fields of an attachment: id, kind, name, mimeType, sizeBytes, uri, dataBase64.\<close>

datatype Attachment =
  Attachment "string option" AttachmentKind string "string option" "nat option" "string option"
    "string option"

datatype MessageStatus = Sending | Sent | Received | Read | Failed | Streaming

datatype StreamEvent =
    MessageStart string string string
  | Token string
  | AttachmentEvent Attachment
  | Typing bool
  | MessageEnd string string MessageStatus string
  | ErrorEvent string string bool

text \<open>
  The schemas of the protocol package, as validators of a parsed JSON value. An object
  schema ignores the keys it does not name. \<^verbatim>\<open>z.string().datetime()\<close> is a check of the
  validation library; it is the parameter \<open>datetime\<close>.
\<close>

definition reqString :: "(string \<times> json) list \<Rightarrow> string \<Rightarrow> string option" where
  "reqString props k = (case map_of props k of Some (JStr s) \<Rightarrow> Some s | _ \<Rightarrow> None)"

definition reqStringMin1 :: "(string \<times> json) list \<Rightarrow> string \<Rightarrow> string option" where
  "reqStringMin1 props k =
     (case map_of props k of Some (JStr s) \<Rightarrow> if s \<noteq> [] then Some s else None | _ \<Rightarrow> None)"

definition optStringMin1 :: "(string \<times> json) list \<Rightarrow> string \<Rightarrow> string option option" where
  "optStringMin1 props k =
     (case map_of props k of
        None \<Rightarrow> Some None
      | Some (JStr s) \<Rightarrow> if s \<noteq> [] then Some (Some s) else None
      | Some _ \<Rightarrow> None)"

definition reqDatetime :: "(string \<Rightarrow> bool) \<Rightarrow> (string \<times> json) list \<Rightarrow> string \<Rightarrow> string option" where
  "reqDatetime datetime props k =
     (case map_of props k of Some (JStr s) \<Rightarrow> if datetime s then Some s else None | _ \<Rightarrow> None)"

definition reqBool :: "(string \<times> json) list \<Rightarrow> string \<Rightarrow> bool option" where
  "reqBool props k = (case map_of props k of Some (JBool b) \<Rightarrow> Some b | _ \<Rightarrow> None)"

definition boolDefault :: "bool \<Rightarrow> (string \<times> json) list \<Rightarrow> string \<Rightarrow> bool option" where
  "boolDefault d props k =
     (case map_of props k of None \<Rightarrow> Some d | Some (JBool b) \<Rightarrow> Some b | Some _ \<Rightarrow> None)"

definition optNonnegInt :: "(string \<times> json) list \<Rightarrow> string \<Rightarrow> nat option option" where
  "optNonnegInt props k =
     (case map_of props k of
        None \<Rightarrow> Some None
      | Some (JNum r) \<Rightarrow> if of_int \<lfloor>r\<rfloor> = r \<and> 0 \<le> r then Some (Some (nat \<lfloor>r\<rfloor>)) else None
      | Some _ \<Rightarrow> None)"

definition parseAttachmentKind :: "string \<Rightarrow> AttachmentKind option" where
  "parseAttachmentKind s =
     (if s = ''image'' then Some Image else if s = ''file'' then Some File else None)"

definition parseMessageStatus :: "string \<Rightarrow> MessageStatus option" where
  "parseMessageStatus s =
     (if s = ''sending'' then Some Sending
      else if s = ''sent'' then Some Sent
      else if s = ''received'' then Some Received
      else if s = ''read'' then Some Read
      else if s = ''failed'' then Some Failed
      else if s = ''streaming'' then Some Streaming
      else None)"

definition AttachmentSchema_safeParse :: "json \<Rightarrow> Attachment option" where
  "AttachmentSchema_safeParse j =
     (case j of
        JObj props \<Rightarrow>
          do {
            i \<leftarrow> optStringMin1 props ''id'';
            ks \<leftarrow> reqString props ''kind'';
            k \<leftarrow> parseAttachmentKind ks;
            n \<leftarrow> reqStringMin1 props ''name'';
            m \<leftarrow> optStringMin1 props ''mimeType'';
            s \<leftarrow> optNonnegInt props ''sizeBytes'';
            u \<leftarrow> optStringMin1 props ''uri'';
            d \<leftarrow> optStringMin1 props ''dataBase64'';
            Some (Attachment i k n m s u d)
          }
      | _ \<Rightarrow> None)"

definition StreamEventSchema_safeParse :: "(string \<Rightarrow> bool) \<Rightarrow> json \<Rightarrow> StreamEvent option" where
  "StreamEventSchema_safeParse datetime j =
     (case j of
        JObj props \<Rightarrow>
          (case reqString props ''type'' of
             None \<Rightarrow> None
           | Some ty \<Rightarrow>
               if ty = ''message_start'' then
                 do {
                   mid \<leftarrow> reqStringMin1 props ''messageId'';
                   tid \<leftarrow> reqStringMin1 props ''threadId'';
                   c \<leftarrow> reqDatetime datetime props ''createdAt'';
                   Some (MessageStart mid tid c)
                 }
               else if ty = ''token'' then
                 do { t \<leftarrow> reqString props ''text''; Some (Token t) }
               else if ty = ''attachment'' then
                 do {
                   a \<leftarrow> map_of props ''attachment'';
                   att \<leftarrow> AttachmentSchema_safeParse a;
                   Some (AttachmentEvent att)
                 }
               else if ty = ''typing'' then
                 do { b \<leftarrow> reqBool props ''isTyping''; Some (Typing b) }
               else if ty = ''message_end'' then
                 do {
                   mid \<leftarrow> reqStringMin1 props ''messageId'';
                   t \<leftarrow> reqString props ''text'';
                   ss \<leftarrow> reqString props ''status'';
                   st \<leftarrow> parseMessageStatus ss;
                   c \<leftarrow> reqDatetime datetime props ''createdAt'';
                   Some (MessageEnd mid t st c)
                 }
               else if ty = ''error'' then
                 do {
                   c \<leftarrow> reqStringMin1 props ''code'';
                   m \<leftarrow> reqStringMin1 props ''message'';
                   r \<leftarrow> boolDefault False props ''retryable'';
                   Some (ErrorEvent c m r)
                 }
               else None)
      | _ \<Rightarrow> None)"

text \<open>
  An instance of the parameter \<open>datetime\<close> for the examples: the shape of the strings
  that \<^verbatim>\<open>Date.prototype.toISOString\<close> writes, with any number of fraction digits.
\<close>

definition isoDatetime :: "string \<Rightarrow> bool" where
  "isoDatetime s =
     (let d = take 19 s; rest = drop 19 s in
      length d = 19 \<and>
      list_all is_digit (take 4 d) \<and> d ! 4 = CHR ''-'' \<and>
      list_all is_digit (take 2 (drop 5 d)) \<and> d ! 7 = CHR ''-'' \<and>
      list_all is_digit (take 2 (drop 8 d)) \<and> d ! 10 = CHR ''T'' \<and>
      list_all is_digit (take 2 (drop 11 d)) \<and> d ! 13 = CHR '':'' \<and>
      list_all is_digit (take 2 (drop 14 d)) \<and> d ! 16 = CHR '':'' \<and>
      list_all is_digit (take 2 (drop 17 d)) \<and>
      (rest = ''Z'' \<or>
       (case rest of
          [] \<Rightarrow> False
        | c # cs \<Rightarrow>
            c = CHR ''.'' \<and> cs \<noteq> [] \<and> last cs = CHR ''Z'' \<and> butlast cs \<noteq> [] \<and>
            list_all is_digit (butlast cs))))"

text \<open>The events that satisfy their schema.\<close>

fun validAttachment :: "Attachment \<Rightarrow> bool" where
  "validAttachment (Attachment i k n m s u d) =
     (i \<noteq> Some [] \<and> n \<noteq> [] \<and> m \<noteq> Some [] \<and> u \<noteq> Some [] \<and> d \<noteq> Some [])"

fun validEvent :: "(string \<Rightarrow> bool) \<Rightarrow> StreamEvent \<Rightarrow> bool" where
  "validEvent datetime (MessageStart mid tid c) = (mid \<noteq> [] \<and> tid \<noteq> [] \<and> datetime c)"
| "validEvent datetime (Token t) = True"
| "validEvent datetime (AttachmentEvent a) = validAttachment a"
| "validEvent datetime (Typing b) = True"
| "validEvent datetime (MessageEnd mid t st c) = (mid \<noteq> [] \<and> datetime c)"
| "validEvent datetime (ErrorEvent c m r) = (c \<noteq> [] \<and> m \<noteq> [])"

section \<open>JSON.stringify\<close>

text \<open>
  \<^verbatim>\<open>JSON.stringify\<close> without indentation. A string is quoted with the escapes of
  QuoteJSONString (ECMA-262). A number is rendered by the decimal digits of its integer
  value: the objects this program serializes hold no other numbers.
\<close>

definition hexDigit :: "nat \<Rightarrow> char" where
  "hexDigit d = ''0123456789abcdef'' ! d"

definition escapeChar :: "char \<Rightarrow> string" where
  "escapeChar c =
     (if c = CHR 0x22 then [CHR 0x5C, CHR 0x22]
      else if c = CHR 0x5C then [CHR 0x5C, CHR 0x5C]
      else if c = CHR 0x08 then [CHR 0x5C, CHR ''b'']
      else if c = CHR 0x0C then [CHR 0x5C, CHR ''f'']
      else if c = CHR 0x0A then [CHR 0x5C, CHR ''n'']
      else if c = CHR 0x0D then [CHR 0x5C, CHR ''r'']
      else if c = CHR 0x09 then [CHR 0x5C, CHR ''t'']
      else if (of_char c :: nat) < 0x20 then
        [CHR 0x5C, CHR ''u'', CHR ''0'', CHR ''0'', hexDigit (of_char c div 16), hexDigit (of_char c mod 16)]
      else [c])"

definition quoteJSON :: "string \<Rightarrow> string" where
  "quoteJSON s = CHR 0x22 # concat (map escapeChar s) @ [CHR 0x22]"

fun JSON_stringify :: "json \<Rightarrow> string" where
  "JSON_stringify JNull = ''null''"
| "JSON_stringify (JBool b) = (if b then ''true'' else ''false'')"
| "JSON_stringify (JNum r) = showInt \<lfloor>r\<rfloor>"
| "JSON_stringify (JStr s) = quoteJSON s"
| "JSON_stringify (JArr items) = ''['' @ join '','' (map JSON_stringify items) @ '']''"
| "JSON_stringify (JObj props) =
     ''{'' @ join '','' (map (\<lambda>p. quoteJSON (fst p) @ '':'' @ JSON_stringify (snd p)) props) @ ''}''"

text \<open>The object that an event is; an optional field that is absent is no property.\<close>

definition optionalProp :: "string \<Rightarrow> ('a \<Rightarrow> json) \<Rightarrow> 'a option \<Rightarrow> (string \<times> json) list" where
  "optionalProp k f v = (case v of None \<Rightarrow> [] | Some x \<Rightarrow> [(k, f x)])"

fun attachmentKindName :: "AttachmentKind \<Rightarrow> string" where
  "attachmentKindName Image = ''image''"
| "attachmentKindName File = ''file''"

fun messageStatusName :: "MessageStatus \<Rightarrow> string" where
  "messageStatusName Sending = ''sending''"
| "messageStatusName Sent = ''sent''"
| "messageStatusName Received = ''received''"
| "messageStatusName Read = ''read''"
| "messageStatusName Failed = ''failed''"
| "messageStatusName Streaming = ''streaming''"

fun attachment_to_json :: "Attachment \<Rightarrow> json" where
  "attachment_to_json (Attachment i k n m s u d) =
     JObj (optionalProp ''id'' JStr i @
           [(''kind'', JStr (attachmentKindName k)), (''name'', JStr n)] @
           optionalProp ''mimeType'' JStr m @
           optionalProp ''sizeBytes'' (\<lambda>b. JNum (of_nat b)) s @
           optionalProp ''uri'' JStr u @
           optionalProp ''dataBase64'' JStr d)"

fun event_to_json :: "StreamEvent \<Rightarrow> json" where
  "event_to_json (MessageStart mid tid c) =
     JObj [(''type'', JStr ''message_start''), (''messageId'', JStr mid), (''threadId'', JStr tid),
           (''createdAt'', JStr c)]"
| "event_to_json (Token t) = JObj [(''type'', JStr ''token''), (''text'', JStr t)]"
| "event_to_json (AttachmentEvent a) =
     JObj [(''type'', JStr ''attachment''), (''attachment'', attachment_to_json a)]"
| "event_to_json (Typing b) = JObj [(''type'', JStr ''typing''), (''isTyping'', JBool b)]"
| "event_to_json (MessageEnd mid t st c) =
     JObj [(''type'', JStr ''message_end''), (''messageId'', JStr mid), (''text'', JStr t),
           (''status'', JStr (messageStatusName st)), (''createdAt'', JStr c)]"
| "event_to_json (ErrorEvent c m r) =
     JObj [(''type'', JStr ''error''), (''code'', JStr c), (''message'', JStr m),
           (''retryable'', JBool r)]"

definition JSON_stringify_event :: "StreamEvent \<Rightarrow> string" where
  "JSON_stringify_event e = JSON_stringify (event_to_json e)"

section \<open>The SSE encoder of the agent server\<close>

text \<open>
  Modelled from the spec: \<^verbatim>\<open>writeSSE\<close> belongs to the web framework, which is not
  under src/. It writes one \<^verbatim>\<open>data:\<close> line that carries the data, terminated by a
  blank line.
\<close>

definition writeSSE :: "string \<Rightarrow> string" where
  "writeSSE d = ''data: '' @ d @ ''\<newline>\<newline>''"

text \<open>
  What an event generator does when it is run to its end: the events it yields, and the
  value it throws if it fails (an \<^verbatim>\<open>Error\<close> with its message, or some other value).
\<close>

datatype thrown = ErrorThrown string | OtherThrown

type_synonym generated = "StreamEvent list \<times> thrown option"

text \<open>
  The handler of \<^verbatim>\<open>/v1/chat.stream\<close>: the data of each \<^verbatim>\<open>writeSSE\<close> call, in order.
\<close>

definition chatStreamWrites :: "generated \<Rightarrow> string list" where
  "chatStreamWrites g =
     map JSON_stringify_event (fst g) @
     (case snd g of
        None \<Rightarrow> [''[DONE]'']
      | Some error \<Rightarrow>
          [JSON_stringify_event
             (ErrorEvent ''provider_error''
                (case error of ErrorThrown message \<Rightarrow> message
                 | OtherThrown \<Rightarrow> ''Unknown provider error'')
                False)])"

definition chatStreamResponse :: "generated \<Rightarrow> string" where
  "chatStreamResponse g = concat (map writeSSE (chatStreamWrites g))"

section \<open>The SSE decoders\<close>

text \<open>\<^verbatim>\<open>s.replace(/\r\n/g, "\n")\<close>.\<close>

fun normalizeCrlf :: "string \<Rightarrow> string" where
  "normalizeCrlf (c # d # rest) =
     (if c = CHR 0x0D \<and> d = CHR 0x0A then CHR 0x0A # normalizeCrlf rest
      else c # normalizeCrlf (d # rest))"
| "normalizeCrlf s = s"

text \<open>\<^verbatim>\<open>s.split(sep)\<close> for a string separator that is not empty.\<close>

function splitOn_from :: "string \<Rightarrow> string \<Rightarrow> string \<Rightarrow> string list" where
  "splitOn_from cur sep [] = [cur]"
| "splitOn_from cur sep (c # cs) =
     (if sep \<noteq> [] \<and> startsWith (c # cs) sep
      then cur # splitOn_from [] sep (drop (length sep) (c # cs))
      else splitOn_from (cur @ [c]) sep cs)"
  by pat_completeness auto
termination
proof (relation "measure (\<lambda>(cur, sep, s). length s)")
  fix cur sep :: string and c :: char and cs :: string
  assume "sep \<noteq> [] \<and> startsWith (c # cs) sep"
  then have "0 < length sep" by simp
  then have "length (drop (length sep) (c # cs)) < length (c # cs)" by simp
  then show "(([], sep, drop (length sep) (c # cs)), (cur, sep, c # cs))
               \<in> measure (\<lambda>(cur, sep, s). length s)"
    by simp
qed simp_all

definition splitOn :: "string \<Rightarrow> string \<Rightarrow> string list" where
  "splitOn s sep = splitOn_from [] sep s"

text \<open>\<^verbatim>\<open>parseSsePayloadFromText\<close> of the client package.\<close>

definition parseSsePayloadFromText :: "string \<Rightarrow> string list" where
  "parseSsePayloadFromText payload =
     concat (map (\<lambda>block.
               concat (map (\<lambda>line.
                         if \<not> startsWith line ''data:'' then []
                         else (let item = trim (drop 5 line) in if item \<noteq> [] then [item] else []))
                       (splitOn block ''\<newline>'')))
             (splitOn (normalizeCrlf payload) ''\<newline>\<newline>''))"

lemma indexOf_bound: "indexOf s p = Some i \<Longrightarrow> i + length p \<le> length s"
proof (induction s arbitrary: i)
  case Nil
  then show ?case by (cases "p = []") simp_all
next
  case (Cons c cs)
  show ?case
  proof (cases "startsWith (c # cs) p")
    case True
    with Cons.prems have "i = 0" by simp
    moreover from True have "length (take (length p) (c # cs)) = length p"
      by (simp only: startsWith_def)
    then have "length p \<le> length (c # cs)"
      by simp
    ultimately show ?thesis by simp
  next
    case False
    with Cons.prems have m: "map_option Suc (indexOf cs p) = Some i" by simp
    then obtain j where j: "indexOf cs p = Some j" "i = Suc j"
      by (cases "indexOf cs p") simp_all
    from Cons.IH [OF j(1)] j(2) show ?thesis by simp
  qed
qed

lemma length_normalizeCrlf: "length (normalizeCrlf s) \<le> length s"
  by (induction s rule: normalizeCrlf.induct) auto

text \<open>
  The inner loop of \<^verbatim>\<open>parseSseData\<close>: while the normalized buffer holds a blank-line
  boundary, the frame before it is taken off and its data lines are yielded. The result is
  the data yielded and the buffer that is left.
\<close>

function drainBuffer :: "string \<Rightarrow> string list \<times> string" where
  "drainBuffer buffer =
     (let normalized = normalizeCrlf buffer in
      case indexOf normalized ''\<newline>\<newline>'' of
        None \<Rightarrow> ([], buffer)
      | Some boundary \<Rightarrow>
          (let rawEvent = take boundary normalized;
               rest = drainBuffer (drop (boundary + 2) normalized)
           in (parseSsePayloadFromText rawEvent @ fst rest, snd rest)))"
  by pat_completeness auto
termination
proof (relation "measure length")
  fix buffer normalized :: string and boundary :: nat
  assume a: "normalized = normalizeCrlf buffer"
    and b: "indexOf normalized ''\<newline>\<newline>'' = Some boundary"
  from indexOf_bound [OF b] have "boundary + 2 \<le> length normalized" by simp
  moreover from a have "length normalized \<le> length buffer"
    by (simp only: length_normalizeCrlf)
  ultimately have "length (drop (boundary + 2) normalized) < length buffer"
    by simp
  then show "(drop (boundary + 2) normalized, buffer) \<in> measure length"
    by (simp only: in_measure)
qed (rule wf_measure)

text \<open>
  \<^verbatim>\<open>parseSseData\<close> over the chunks that the reader returns, as text (the streaming
  decoder keeps the bytes of an unfinished character for the next chunk). After the last
  chunk the rest of the buffer is parsed once more.
\<close>

fun parseSseData_from :: "string \<Rightarrow> string list \<Rightarrow> string list" where
  "parseSseData_from buffer [] = parseSsePayloadFromText buffer"
| "parseSseData_from buffer (chunk # chunks) =
     (let r = drainBuffer (buffer @ chunk) in fst r @ parseSseData_from (snd r) chunks)"

definition parseSseData :: "string list \<Rightarrow> string list" where
  "parseSseData chunks = parseSseData_from [] chunks"

text \<open>
  The event-stream branch of \<^verbatim>\<open>BirdhouseClient.chatStream\<close>: what it yields for one
  data string, and for the chunks of a response.
\<close>

definition chatStreamData :: "(string \<Rightarrow> bool) \<Rightarrow> string \<Rightarrow> StreamEvent list" where
  "chatStreamData datetime d =
     (if d = [] \<or> d = ''[DONE]'' then []
      else
        (case JSON_parse d of
           None \<Rightarrow> [Token d]
         | Some json \<Rightarrow>
             (case StreamEventSchema_safeParse datetime json of
                None \<Rightarrow> [Token d]
              | Some event \<Rightarrow> [event])))"

definition chatStream :: "(string \<Rightarrow> bool) \<Rightarrow> string list \<Rightarrow> StreamEvent list" where
  "chatStream datetime chunks = concat (map (chatStreamData datetime) (parseSseData chunks))"

text \<open>
  \<^verbatim>\<open>parseSseEvents\<close> of the provider SDK: the data lines of a frame, the events of one
  payload, the inner loop and the loop over the chunks. It has no flush after the last chunk.
\<close>

definition dataLines :: "string \<Rightarrow> string list" where
  "dataLines rawEvent =
     filter (\<lambda>payload. payload \<noteq> [])
       (map (\<lambda>line. trim (drop 5 line))
          (filter (\<lambda>line. startsWith line ''data:'') (splitOn rawEvent ''\<newline>'')))"

text \<open>\<^verbatim>\<open>typeof parsedJson?.key === "string"\<close>, with the string.\<close>

definition stringProperty :: "json \<Rightarrow> string \<Rightarrow> string option" where
  "stringProperty j k =
     (case j of
        JObj props \<Rightarrow> (case map_of props k of Some (JStr s) \<Rightarrow> Some s | _ \<Rightarrow> None)
      | _ \<Rightarrow> None)"

definition payloadEvents :: "(string \<Rightarrow> bool) \<Rightarrow> string \<Rightarrow> StreamEvent list" where
  "payloadEvents datetime payload =
     (if payload = ''[DONE]'' then []
      else
        (case JSON_parse payload of
           None \<Rightarrow> [Token payload]
         | Some parsedJson \<Rightarrow>
             (case StreamEventSchema_safeParse datetime parsedJson of
                Some event \<Rightarrow> [event]
              | None \<Rightarrow>
                  (case stringProperty parsedJson ''text'' of
                     Some t \<Rightarrow> [Token t]
                   | None \<Rightarrow>
                       (case stringProperty parsedJson ''token'' of
                          Some t \<Rightarrow> [Token t]
                        | None \<Rightarrow> [])))))"

function drainEvents :: "(string \<Rightarrow> bool) \<Rightarrow> string \<Rightarrow> StreamEvent list \<times> string" where
  "drainEvents datetime buffer =
     (let normalized = normalizeCrlf buffer in
      case indexOf normalized ''\<newline>\<newline>'' of
        None \<Rightarrow> ([], buffer)
      | Some boundary \<Rightarrow>
          (let rawEvent = take boundary normalized;
               rest = drainEvents datetime (drop (boundary + 2) normalized)
           in (concat (map (payloadEvents datetime) (dataLines rawEvent)) @ fst rest, snd rest)))"
  by pat_completeness auto
termination
proof (relation "measure (\<lambda>(datetime, buffer). length buffer)")
  fix datetime :: "string \<Rightarrow> bool" and buffer normalized :: string and boundary :: nat
  assume a: "normalized = normalizeCrlf buffer"
    and b: "indexOf normalized ''\<newline>\<newline>'' = Some boundary"
  from indexOf_bound [OF b] have "boundary + 2 \<le> length normalized" by simp
  moreover from a have "length normalized \<le> length buffer"
    by (simp only: length_normalizeCrlf)
  ultimately have "length (drop (boundary + 2) normalized) < length buffer"
    by simp
  then show "((datetime, drop (boundary + 2) normalized), (datetime, buffer))
               \<in> measure (\<lambda>(datetime, buffer). length buffer)"
    by simp
qed (rule wf_measure)

fun parseSseEvents_from :: "(string \<Rightarrow> bool) \<Rightarrow> string \<Rightarrow> string list \<Rightarrow> StreamEvent list" where
  "parseSseEvents_from datetime buffer [] = []"
| "parseSseEvents_from datetime buffer (chunk # chunks) =
     (let r = drainEvents datetime (buffer @ chunk)
      in fst r @ parseSseEvents_from datetime (snd r) chunks)"

definition parseSseEvents :: "(string \<Rightarrow> bool) \<Rightarrow> string list \<Rightarrow> StreamEvent list" where
  "parseSseEvents datetime chunks = parseSseEvents_from datetime [] chunks"

section \<open>The event sequences of the providers\<close>

text \<open>
  Every call of \<^verbatim>\<open>randomId()\<close> and every reading of the clock is an argument of the
  model, one argument for each call in the source.
\<close>

text \<open>
  What \<^verbatim>\<open>resolveCommand\<close> and \<^verbatim>\<open>runCliCommand\<close> come to for the CLI-wrapped adapter:
  no command is configured, the promise is rejected, or it is resolved with stdout, stderr
  and the exit code.
\<close>

datatype cliRun = NoCommand | RunRejected string | RunResolved string string int

text \<open>\<^verbatim>\<open>CliWrappedProviderAdapter.sendMessageStream\<close>.\<close>

definition cliSendMessageStream ::
  "string \<Rightarrow> CliParseMode \<Rightarrow> string \<Rightarrow> string \<Rightarrow> string \<Rightarrow> string \<Rightarrow> cliRun \<Rightarrow> generated" where
  \<open>cliSendMessageStream adapterKind parse messageId createdAt endedAt threadId run =
     (let opening = [MessageStart messageId threadId createdAt, Typing True] in
      case run of
        NoCommand \<Rightarrow>
          (opening,
           Some (ErrorThrown (adapterKind @
             '' requires provider.extra.command. Example: {"command":"nanoclaw","args":["{prompt}"]}'')))
      | RunRejected message \<Rightarrow> (opening, Some (ErrorThrown message))
      | RunResolved stdout stderr exitCode \<Rightarrow>
          if exitCode \<noteq> 0 then
            (opening, Some (ErrorThrown (adapterFailureMessage adapterKind stdout stderr exitCode)))
          else
            (let text = normalizeCliOutput stdout stderr parse in
             (opening @ map Token (chunkText text) @
                [Typing False, MessageEnd messageId text Received endedAt],
              None)))\<close>

text \<open>
  \<^verbatim>\<open>runWrappedCommandStream\<close> of the agent server, over the settlement of the promise of
  \<^verbatim>\<open>runWrappedCommandPrompt\<close>.
\<close>

definition runWrappedCommandStream ::
  "string \<Rightarrow> string \<Rightarrow> string \<Rightarrow> string \<Rightarrow> string settlement \<Rightarrow> generated" where
  "runWrappedCommandStream messageId createdAt endedAt threadId outcome =
     (let opening = [MessageStart messageId threadId createdAt, Typing True] in
      case outcome of
        Rejected message \<Rightarrow> (opening, Some (ErrorThrown message))
      | Resolved output \<Rightarrow>
          (opening @ map Token (wrappedTokens output) @
             [Typing False, MessageEnd messageId output Received endedAt],
           None))"

text \<open>
  The branch of \<^verbatim>\<open>streamRemoteProvider\<close> for a response that is one JSON body: the
  text is the first of the properties text, message and output that is a string.
\<close>

definition remoteBodyText :: "json \<Rightarrow> string" where
  "remoteBodyText body =
     (case stringProperty body ''text'' of
        Some t \<Rightarrow> t
      | None \<Rightarrow>
          (case stringProperty body ''message'' of
             Some t \<Rightarrow> t
           | None \<Rightarrow> (case stringProperty body ''output'' of Some t \<Rightarrow> t | None \<Rightarrow> [])))"

definition remoteJsonEnvelope :: "string \<Rightarrow> string \<Rightarrow> string \<Rightarrow> json \<Rightarrow> StreamEvent list" where
  "remoteJsonEnvelope messageId createdAt threadId body =
     (let text = remoteBodyText body in
      [MessageStart messageId threadId createdAt] @
      (if text \<noteq> [] then [Token text] else []) @
      [MessageEnd messageId text Received createdAt])"

text \<open>
  The branch of \<^verbatim>\<open>BirdhouseClient.chatStream\<close> for a response that is not an event
  stream and whose body has no array of events. \<open>startId\<close> and \<open>endId\<close> are the results
  of its two calls of \<^verbatim>\<open>randomId()\<close>.
\<close>

definition chatStreamFallback ::
  "string \<Rightarrow> string \<Rightarrow> string \<Rightarrow> string \<Rightarrow> string \<Rightarrow> json \<Rightarrow> StreamEvent list" where
  "chatStreamFallback startId endId startedAt endedAt threadId fallbackPayload =
     (let text = (case stringProperty fallbackPayload ''text'' of Some t \<Rightarrow> t | None \<Rightarrow> []) in
      [MessageStart startId threadId startedAt, Token text,
       MessageEnd endId text Received endedAt])"

text \<open>
  The ordering contract of a turn: one \<^verbatim>\<open>message_start\<close> first, one
  \<^verbatim>\<open>message_end\<close> or \<^verbatim>\<open>error\<close> last, only token, attachment and typing events
  between them, and the same message id at both ends.
\<close>

fun isInner :: "StreamEvent \<Rightarrow> bool" where
  "isInner (Token t) = True"
| "isInner (AttachmentEvent a) = True"
| "isInner (Typing b) = True"
| "isInner e = False"

fun closes :: "string \<Rightarrow> StreamEvent \<Rightarrow> bool" where
  "closes messageId (MessageEnd endId t st c) = (endId = messageId)"
| "closes messageId (ErrorEvent c m r) = True"
| "closes messageId e = False"

fun wellFormedTurn :: "StreamEvent list \<Rightarrow> bool" where
  "wellFormedTurn (MessageStart messageId threadId createdAt # rest) =
     (rest \<noteq> [] \<and> list_all isInner (butlast rest) \<and> closes messageId (last rest))"
| "wellFormedTurn events = False"

text \<open>
  The events that reach the client for a generator behind the streaming endpoint: the
  yielded events, and the synthetic error event when the generator fails.
\<close>

definition served :: "generated \<Rightarrow> StreamEvent list" where
  "served g =
     fst g @
     (case snd g of
        None \<Rightarrow> []
      | Some error \<Rightarrow>
          [ErrorEvent ''provider_error''
             (case error of ErrorThrown message \<Rightarrow> message
              | OtherThrown \<Rightarrow> ''Unknown provider error'')
             False])"

section \<open>Notions for the round trip of JSON text\<close>

text \<open>What may follow a number in a text: nothing that would continue its literal.\<close>

definition ends_number :: "string \<Rightarrow> bool" where
  "ends_number rest =
     (case rest of [] \<Rightarrow> True
      | c # cs \<Rightarrow> \<not> is_digit c \<and> c \<noteq> CHR ''.'' \<and> c \<noteq> CHR ''e'' \<and> c \<noteq> CHR ''E'')"

text \<open>
  The values whose text \<^verbatim>\<open>JSON.parse\<close> reads back: their numbers are natural numbers,
  and the keys of an object are distinct and no array indices.
\<close>

fun writable :: "json \<Rightarrow> bool" where
  "writable JNull = True"
| "writable (JBool b) = True"
| "writable (JNum r) = (r = of_nat (nat \<lfloor>r\<rfloor>))"
| "writable (JStr s) = True"
| "writable (JArr items) = list_all writable items"
| "writable (JObj props) =
     (list_all (\<lambda>p. writable (snd p)) props \<and> distinct (map fst props) \<and>
      list_all (\<lambda>p. \<not> isArrayIndex (fst p)) props)"

definition ends_value :: "string \<Rightarrow> bool" where
  "ends_value rest =
     (case rest of [] \<Rightarrow> True | c # cs \<Rightarrow> c = CHR '','' \<or> c = CHR '']'' \<or> c = CHR ''}'')"

text \<open>The first character of the text of a value starts a value.\<close>

definition starts_value :: "string \<Rightarrow> bool" where
  "starts_value s =
     (case s of [] \<Rightarrow> False
      | c # cs \<Rightarrow> \<not> json_ws c \<and> c \<noteq> CHR '']'' \<and> c \<noteq> CHR ''}'')"

text \<open>The text of the members of an object.\<close>

definition memberText :: "string \<times> json \<Rightarrow> string" where
  "memberText p = quoteJSON (fst p) @ '':'' @ JSON_stringify (snd p)"

definition reads_back :: "json \<Rightarrow> bool" where
  "reads_back v =
     (\<forall>n rest. length (JSON_stringify v) \<le> n \<longrightarrow> ends_value rest \<longrightarrow>
        parse_value n (JSON_stringify v @ rest) = Some (v, rest))"

definition no_break :: "string \<Rightarrow> bool" where
  "no_break s = (CHR 0x0A \<notin> set s \<and> CHR 0x0D \<notin> set s)"

section \<open>Properties of prompt substitution\<close>

lemma getSubstitution_no_dollar:
  "CHR ''$'' \<notin> set r \<Longrightarrow> getSubstitution m pre post r = r"
  by (induction m pre post r rule: getSubstitution.induct) auto

text \<open>
  A prompt without a dollar sign is inserted as it is, and the arguments that hold no
  placeholder stay as they are; the prompt is appended exactly when no argument holds the
  placeholder and appending is asked for.
\<close>

lemma replaceAll_from_pre:
  assumes "CHR ''$'' \<notin> set r"
  shows "replaceAll_from p r pre s = replaceAll_from p r pre' s"
proof (induction "length s" arbitrary: s pre pre' rule: less_induct)
  case less
  note g = getSubstitution_no_dollar [OF assms]
  show ?case
  proof (cases s)
    case Nil
    then show ?thesis by (simp add: g)
  next
    case (Cons c cs)
    have a: "replaceAll_from p r (pre @ [c]) cs = replaceAll_from p r (pre' @ [c]) cs"
      using less [of cs "pre @ [c]" "pre' @ [c]"] Cons by simp
    show ?thesis
    proof (cases "p = []")
      case True
      then show ?thesis unfolding Cons using a by (simp add: g)
    next
      case False
      then have "length (drop (length p) (c # cs)) < length s" using Cons by simp
      then have b: "replaceAll_from p r (pre @ p) (drop (length p) (c # cs)) =
          replaceAll_from p r (pre' @ p) (drop (length p) (c # cs))"
        using less [of "drop (length p) (c # cs)" "pre @ p" "pre' @ p"] by blast
      show ?thesis unfolding Cons using a b False by (simp add: g)
    qed
  qed
qed

lemma replaceAll_from_skip:
  "CHR ''{'' \<notin> set a \<Longrightarrow>
     replaceAll_from ''{prompt}'' r pre (a @ s) = a @ replaceAll_from ''{prompt}'' r (pre @ a) s"
proof (induction a arbitrary: pre)
  case Nil
  then show ?case by simp
next
  case (Cons c a)
  then have "\<not> startsWith (c # a @ s) ''{prompt}''" by (auto simp: startsWith_def)
  with Cons show ?case by simp
qed

lemma replaceAll_placeholder:
  assumes "CHR ''$'' \<notin> set prompt" "CHR ''{'' \<notin> set a"
  shows "replaceAll (a @ ''{prompt}'' @ b) ''{prompt}'' prompt =
           a @ prompt @ replaceAll b ''{prompt}'' prompt"
proof -
  have "replaceAll_from ''{prompt}'' prompt pre (''{prompt}'' @ b) =
          prompt @ replaceAll_from ''{prompt}'' prompt (pre @ ''{prompt}'') b" for pre
    using assms(1) by (simp add: startsWith_def getSubstitution_no_dollar)
  then show ?thesis
    unfolding replaceAll_def
    using replaceAll_from_skip [OF assms(2), of prompt "[]" "''{prompt}'' @ b"]
      replaceAll_from_pre [OF assms(1), of "''{prompt}''" "a @ ''{prompt}''" b "[]"]
    by simp
qed

lemma applyPromptToArgs_no_placeholder:
  assumes "\<not> list_ex (\<lambda>arg. includesStr arg ''{prompt}'') args"
  shows "applyPromptToArgs args prompt True = args @ [prompt]"
    and "applyPromptToArgs args prompt False = args"
    and "applyPrompt args prompt False = args @ [prompt]"
    and "applyPrompt args prompt True = args"
proof -
  have "map (\<lambda>arg. if includesStr arg ''{prompt}'' then replaceAll arg ''{prompt}'' prompt else arg) args = args"
    using assms by (induction args) simp_all
  then show "applyPromptToArgs args prompt True = args @ [prompt]"
    and "applyPromptToArgs args prompt False = args"
    and "applyPrompt args prompt False = args @ [prompt]"
    and "applyPrompt args prompt True = args"
    using assms by (simp_all add: applyPromptToArgs_def applyPrompt_def Let_def)
qed

lemma length_applyPromptToArgs:
  "length (applyPromptToArgs args prompt appendPromptIfMissing) =
     (if appendPromptIfMissing \<and> \<not> list_ex (\<lambda>arg. includesStr arg ''{prompt}'') args
      then Suc (length args) else length args)"
  "length (applyPrompt args prompt stdinMode) =
     (if \<not> stdinMode \<and> \<not> list_ex (\<lambda>arg. includesStr arg ''{prompt}'') args
      then Suc (length args) else length args)"
  by (simp_all add: applyPromptToArgs_def applyPrompt_def Let_def)

lemma applyPromptToArgs_keeps_plain_args:
  "i < length args \<Longrightarrow> \<not> includesStr (args ! i) ''{prompt}'' \<Longrightarrow>
     applyPromptToArgs args prompt appendPromptIfMissing ! i = args ! i"
  by (simp add: applyPromptToArgs_def nth_append Let_def)

text \<open>
  C5. Prompt substitution does not insert the prompt as it is: a prompt holding
  \<^verbatim>\<open>$$\<close> is inserted with one dollar sign, because \<^verbatim>\<open>replaceAll\<close> reads its
  string replacement as a replacement pattern. For the argument list
  \<^verbatim>\<open>["{prompt}"]\<close> and the prompt \<^verbatim>\<open>$$\<close> both substitution functions return
  \<^verbatim>\<open>["$"]\<close>, not the prompt.
\<close>

theorem applyPromptToArgs_dollar_prompt:
  "applyPromptToArgs [''{prompt}''] ''$$'' True = [''$''] \<and>
   applyPrompt [''{prompt}''] ''$$'' False = [''$'']"
  by (simp add: applyPromptToArgs_def applyPrompt_def includesStr_def startsWith_def replaceAll_def)

section \<open>Termination and totality of the text extraction\<close>

text \<open>
  C10. \<^verbatim>\<open>extractTextFromUnknown\<close> terminates on every JSON value: every value lies in
  the accessible part of the function's call relation, whose calls go from an array to its
  elements and from an object to its property values. It returns a string input as it is
  and the empty string for \<^verbatim>\<open>null\<close>, a boolean or a number.
\<close>

theorem extractTextFromUnknown_total:
  "extractTextFromUnknown_dom v \<and>
   extractTextFromUnknown (JStr s) = s \<and>
   extractTextFromUnknown JNull = [] \<and>
   extractTextFromUnknown (JBool b) = [] \<and>
   extractTextFromUnknown (JNum n) = []"
  by (simp add: extractTextFromUnknown_dom_all)

section \<open>Properties of trimming and line splitting\<close>

lemma trim_hd_not_ws: "trim s \<noteq> [] \<Longrightarrow> \<not> is_ws (hd (trim s))"
proof -
  assume a: "trim s \<noteq> []"
  define u where "u = dropWhile is_ws s"
  define v where "v = dropWhile is_ws (rev u)"
  have t: "trim s = rev v" by (simp add: trim_def u_def v_def)
  with a have v: "v \<noteq> []" by simp
  then have u: "u \<noteq> []" by (auto simp: v_def)
  have "\<exists>ys. rev u = ys @ v" unfolding v_def
    by (metis takeWhile_dropWhile_id)
  then obtain ys where ys: "rev u = ys @ v" by blast
  have "last v = last (rev u)" using ys v by simp
  also have "\<dots> = hd u" using u by (simp add: last_rev)
  finally have "hd (trim s) = hd u" using t v by (simp add: hd_rev)
  moreover have "\<not> is_ws (hd u)" using u unfolding u_def by (rule hd_dropWhile)
  ultimately show ?thesis by simp
qed

lemma trim_last_not_ws: "trim s \<noteq> [] \<Longrightarrow> \<not> is_ws (last (trim s))"
proof -
  assume a: "trim s \<noteq> []"
  define v where "v = dropWhile is_ws (rev (dropWhile is_ws s))"
  have t: "trim s = rev v" by (simp add: trim_def v_def)
  with a have v: "v \<noteq> []" by simp
  then have "\<not> is_ws (hd v)" unfolding v_def by (rule hd_dropWhile)
  then show ?thesis using t v by (simp add: last_rev)
qed

lemma splitLines_from_nonempty: "splitLines_from cur s \<noteq> []"
  by (induction cur s rule: splitLines_from.induct) auto

lemma splitLines_from_hd: "cur \<noteq> [] \<Longrightarrow> hd (splitLines_from cur s) \<noteq> []"
  by (induction cur s rule: splitLines_from.induct) auto

lemma splitLines_hd:
  "s \<noteq> [] \<Longrightarrow> \<not> is_ws (hd s) \<Longrightarrow> hd (splitLines s) \<noteq> []"
  by (cases "([]::string, s)" rule: splitLines_from.cases)
     (auto simp: splitLines_def is_ws_def splitLines_from_hd)

lemma splitLines_from_last:
  "s \<noteq> [] \<Longrightarrow> last s \<noteq> CHR 0x0A \<Longrightarrow> last (splitLines_from cur s) \<noteq> []"
  by (induction cur s rule: splitLines_from.induct)
     (auto simp: splitLines_from_nonempty split: if_splits)

lemma splitLines_from_single:
  "length (splitLines_from cur s) = 1 \<Longrightarrow> splitLines_from cur s = [cur @ s]"
  by (induction cur s rule: splitLines_from.induct)
     (auto simp: splitLines_from_nonempty split: if_splits)

lemma filter_two:
  assumes "2 \<le> length L" "hd L \<noteq> []" "last L \<noteq> []"
  shows "2 \<le> length (filter (\<lambda>l. l \<noteq> []) L)"
proof -
  from assms(1) obtain x M y where L: "L = x # M @ [y]"
    by (metis One_nat_def Suc_1 Suc_le_length_iff append_butlast_last_id length_0_conv list.sel(3) list.size(3) not_less_eq_eq tl_append2 le_numeral_extra(4) list.exhaust_sel)
  with assms show ?thesis by simp
qed

lemma map_index_last:
  "ls \<noteq> [] \<Longrightarrow>
   map (\<lambda>(index, line). if index < n + length ls - 1 then line @ nl else line) (enumerate n ls)
     = map (\<lambda>line. line @ nl) (butlast ls) @ [last ls]"
proof (induction ls arbitrary: n)
  case Nil
  then show ?case by simp
next
  case (Cons l ls)
  show ?case
  proof (cases "ls = []")
    case True
    then show ?thesis by simp
  next
    case False
    from Cons.IH [OF False, of "Suc n"] False show ?thesis by simp
  qed
qed

lemma chunkText_single:
  assumes "trim text \<noteq> []" "length (filter (\<lambda>l. l \<noteq> []) (splitLines (trim text))) \<le> 1"
  shows "filter (\<lambda>l. l \<noteq> []) (splitLines (trim text)) = [trim text]"
proof -
  let ?t = "trim text" and ?L = "splitLines (trim text)"
  have h: "hd ?L \<noteq> []"
    using assms(1) trim_hd_not_ws by (simp add: splitLines_hd)
  have "last ?t \<noteq> CHR 0x0A"
    using trim_last_not_ws [OF assms(1)] by (auto simp: is_ws_def)
  then have l: "last ?L \<noteq> []"
    using assms(1) by (simp add: splitLines_def splitLines_from_last)
  have "\<not> 2 \<le> length ?L"
    using filter_two [OF _ h l] assms(2) by auto
  moreover have "?L \<noteq> []" by (simp add: splitLines_def splitLines_from_nonempty)
  ultimately have "length ?L = 1" by (cases ?L) (auto simp: not_le)
  then have "?L = [?t]"
    using splitLines_from_single [of "[]" ?t] by (simp add: splitLines_def)
  then show ?thesis using assms(1) by simp
qed

lemma chunkText_eq:
  "chunkText text =
     (let lines = filter (\<lambda>line. line \<noteq> []) (splitLines (trim text)) in
      if lines = [] then [] else map (\<lambda>line. line @ ''\<newline>'') (butlast lines) @ [last lines])"
proof (cases "trim text = []")
  case True
  then show ?thesis by (simp add: chunkText_def splitLines_def)
next
  case False
  let ?lines = "filter (\<lambda>line. line \<noteq> []) (splitLines (trim text))"
  show ?thesis
  proof (cases "length ?lines \<le> 1")
    case True
    with False chunkText_single have "?lines = [trim text]" by blast
    then show ?thesis using False by (simp add: chunkText_def)
  next
    case l: False
    then have ne: "?lines \<noteq> []" by auto
    from map_index_last [OF ne, of 0 "''\<newline>''"] False l ne show ?thesis
      by (simp add: chunkText_def Let_def)
  qed
qed

lemma wrappedTokens_eq:
  "wrappedTokens output = map (\<lambda>line. line @ ''\<newline>'') (filter (\<lambda>line. line \<noteq> []) (splitLines output))"
  by (simp add: wrappedTokens_def splitLines_def)

lemma splitLines_from_no_newline:
  "CHR 0x0A \<notin> set s \<Longrightarrow> splitLines_from cur s = [cur @ s]"
  by (induction cur s rule: splitLines_from.induct) auto

section \<open>The failure text\<close>

text \<open>
  C7, as stated, fails on the CLI-wrapped adapter: for exit code 1, empty stdout and
  stderr \<^verbatim>\<open>boom\<close> the adapter of kind \<^verbatim>\<open>terminal-cli\<close> fails with the message
  \<^verbatim>\<open>terminal-cli command failed: boom\<close>, which is not \<^verbatim>\<open>boom\<close>.
\<close>

theorem adapterFailureMessage_boom_counterexample:
  "adapterFailureMessage ''terminal-cli'' [] ''boom'' 1 = ''terminal-cli command failed: boom'' \<and>
   adapterFailureMessage ''terminal-cli'' [] ''boom'' 1 \<noteq> ''boom''"
  by (simp add: adapterFailureMessage_def errorText_def trim_def is_ws_def)

text \<open>
  C7, amended. For a nonzero exit code the failure text is the trimmed stderr when that
  is not empty, else the trimmed stdout when that is not empty, else
  \<^verbatim>\<open>exit code N\<close>. The wrapped-command server fails with exactly this text (with
  \<^verbatim>\<open>boom\<close> for empty stdout and stderr \<^verbatim>\<open>boom\<close>); the CLI-wrapped adapter fails
  with this text after the prefix \<^verbatim>\<open><kind> command failed: \<close>.
\<close>

theorem failure_message_priority:
  "wrappedFailureMessage stdout stderr code =
     (if trim stderr \<noteq> [] then trim stderr
      else if trim stdout \<noteq> [] then trim stdout
      else ''exit code '' @ showInt code) \<and>
   adapterFailureMessage kind stdout stderr code =
     kind @ '' command failed: '' @ wrappedFailureMessage stdout stderr code \<and>
   wrappedFailureMessage [] ''boom'' code = ''boom'' \<and>
   adapterFailureMessage kind [] ''boom'' code = kind @ '' command failed: boom''"
  by (simp add: wrappedFailureMessage_def adapterFailureMessage_def errorText_def trim_def is_ws_def)

section \<open>The tokens of an output\<close>

text \<open>
  C8, as stated, fails on the wrapped-command server: the one-line output \<^verbatim>\<open>hi\<close> is
  sent as the token \<^verbatim>\<open>hi\<close> followed by a newline, not as the output itself.
\<close>

theorem wrappedTokens_single_line_counterexample:
  "wrappedTokens ''hi'' = [''hi\<newline>''] \<and> wrappedTokens ''hi'' \<noteq> [''hi'']"
  by (simp add: wrappedTokens_def splitLines_def)

text \<open>
  C8, amended. \<^verbatim>\<open>chunkText\<close> of the provider SDK yields one token for each non-empty
  line of the trimmed output: every line but the last followed by a newline, the last line
  as it is; a non-blank output without a newline is one token, the trimmed output. The
  wrapped-command server yields one token for each non-empty line of its output, every
  line followed by a newline, the last one too.
\<close>

theorem chunkText_tokens:
  "chunkText text =
     (let lines = filter (\<lambda>line. line \<noteq> []) (splitLines (trim text)) in
      if lines = [] then [] else map (\<lambda>line. line @ ''\<newline>'') (butlast lines) @ [last lines]) \<and>
   (trim text \<noteq> [] \<and> CHR 0x0A \<notin> set (trim text) \<longrightarrow> chunkText text = [trim text]) \<and>
   wrappedTokens output =
     map (\<lambda>line. line @ ''\<newline>'') (filter (\<lambda>line. line \<noteq> []) (splitLines output))"
proof (intro conjI impI)
  show "chunkText text =
     (let lines = filter (\<lambda>line. line \<noteq> []) (splitLines (trim text)) in
      if lines = [] then [] else map (\<lambda>line. line @ ''\<newline>'') (butlast lines) @ [last lines])"
    by (rule chunkText_eq)
next
  assume a: "trim text \<noteq> [] \<and> CHR 0x0A \<notin> set (trim text)"
  then have "splitLines (trim text) = [trim text]"
    by (simp add: splitLines_def splitLines_from_no_newline)
  with a show "chunkText text = [trim text]"
    by (simp add: chunkText_def)
next
  show "wrappedTokens output =
     map (\<lambda>line. line @ ''\<newline>'') (filter (\<lambda>line. line \<noteq> []) (splitLines output))"
    by (rule wrappedTokens_eq)
qed

theorem chunkText_tokens_witness:
  "trim ''hi '' \<noteq> [] \<and> CHR 0x0A \<notin> set (trim ''hi '') \<and> chunkText ''hi '' = [''hi''] \<and>
   chunkText ''a\<newline>\<newline>b'' = [''a\<newline>'', ''b''] \<and>
   wrappedTokens ''a\<newline>\<newline>b'' = [''a\<newline>'', ''b\<newline>'']"
  using chunkText_tokens [of "''hi ''" "''a\<newline>\<newline>b''"] chunkText_tokens [of "''a\<newline>\<newline>b''" "[]"]
  by (simp add: trim_def is_ws_def splitLines_def)

section \<open>One-shot completion\<close>

text \<open>What both sets of handlers have in common, stated for any step function.\<close>

definition latch_step :: "('a proc_state \<Rightarrow> signal \<Rightarrow> 'a proc_state) \<Rightarrow> bool" where
  "latch_step step =
     (\<forall>st sg.
        (completed st \<longrightarrow>
           completed (step st sg) \<and> settled (step st sg) = settled st \<and> kills (step st sg) = kills st) \<and>
        (\<not> terminal sg \<longrightarrow>
           completed (step st sg) = completed st \<and> settled (step st sg) = settled st \<and>
           kills (step st sg) = kills st) \<and>
        (terminal sg \<longrightarrow> completed (step st sg)))"

lemma latch_runCliCommand_step: "latch_step (runCliCommand_step ms cmd)"
  unfolding latch_step_def
proof (intro allI)
  fix st sg
  show "(completed st \<longrightarrow>
           completed (runCliCommand_step ms cmd st sg) \<and> settled (runCliCommand_step ms cmd st sg) = settled st \<and> kills (runCliCommand_step ms cmd st sg) = kills st) \<and>
        (\<not> terminal sg \<longrightarrow>
           completed (runCliCommand_step ms cmd st sg) = completed st \<and> settled (runCliCommand_step ms cmd st sg) = settled st \<and>
           kills (runCliCommand_step ms cmd st sg) = kills st) \<and>
        (terminal sg \<longrightarrow> completed (runCliCommand_step ms cmd st sg))"
    by (cases sg) auto
qed

lemma latch_runWrappedCommandPrompt_step: "latch_step (runWrappedCommandPrompt_step ms parse)"
  unfolding latch_step_def
proof (intro allI)
  fix st sg
  show "(completed st \<longrightarrow>
           completed (runWrappedCommandPrompt_step ms parse st sg) \<and> settled (runWrappedCommandPrompt_step ms parse st sg) = settled st \<and> kills (runWrappedCommandPrompt_step ms parse st sg) = kills st) \<and>
        (\<not> terminal sg \<longrightarrow>
           completed (runWrappedCommandPrompt_step ms parse st sg) = completed st \<and> settled (runWrappedCommandPrompt_step ms parse st sg) = settled st \<and>
           kills (runWrappedCommandPrompt_step ms parse st sg) = kills st) \<and>
        (terminal sg \<longrightarrow> completed (runWrappedCommandPrompt_step ms parse st sg))"
    by (cases sg) (auto simp: Let_def)
qed

lemma latch_after_completion:
  "latch_step step \<Longrightarrow> completed st \<Longrightarrow>
     completed (foldl step st sgs) \<and> settled (foldl step st sgs) = settled st \<and>
     kills (foldl step st sgs) = kills st"
  by (induction sgs arbitrary: st) (auto simp: latch_step_def)

lemma latch_before_terminal:
  "latch_step step \<Longrightarrow> \<not> list_ex terminal sgs \<Longrightarrow>
     completed (foldl step st sgs) = completed st \<and> settled (foldl step st sgs) = settled st \<and>
     kills (foldl step st sgs) = kills st"
  by (induction sgs arbitrary: st) (auto simp: latch_step_def)

lemma latch_first_terminal:
  assumes "latch_step step" "\<not> list_ex terminal pre" "terminal sg"
  shows "settled (foldl step st (pre @ sg # post)) = settled (step (foldl step st pre) sg) \<and>
         kills (foldl step st (pre @ sg # post)) = kills (step (foldl step st pre) sg)"
proof -
  have "completed (step (foldl step st pre) sg)"
    using assms(1,3) by (simp add: latch_step_def)
  from latch_after_completion [OF assms(1) this, of post] show ?thesis by simp
qed

lemma runCliCommand_first_terminal:
  assumes "\<not> list_ex terminal pre" "terminal sg"
  shows "settled (runCliCommand ms cmd (pre @ sg # post)) =
           settled (runCliCommand_step ms cmd (runCliCommand ms cmd pre) sg)"
    and "kills (runCliCommand ms cmd (pre @ sg # post)) =
           kills (runCliCommand_step ms cmd (runCliCommand ms cmd pre) sg)"
    and "\<not> completed (runCliCommand ms cmd pre)"
    and "settled (runCliCommand ms cmd pre) = []"
    and "kills (runCliCommand ms cmd pre) = 0"
  using latch_first_terminal [OF latch_runCliCommand_step assms, of ms cmd initial_state post]
    latch_before_terminal [OF latch_runCliCommand_step assms(1), of ms cmd initial_state]
  by (simp_all add: runCliCommand_def initial_state_def)

lemma runWrappedCommandPrompt_first_terminal:
  assumes "\<not> list_ex terminal pre" "terminal sg"
  shows "settled (runWrappedCommandPrompt ms parse (pre @ sg # post)) =
           settled (runWrappedCommandPrompt_step ms parse (runWrappedCommandPrompt ms parse pre) sg)"
    and "kills (runWrappedCommandPrompt ms parse (pre @ sg # post)) =
           kills (runWrappedCommandPrompt_step ms parse (runWrappedCommandPrompt ms parse pre) sg)"
    and "\<not> completed (runWrappedCommandPrompt ms parse pre)"
    and "settled (runWrappedCommandPrompt ms parse pre) = []"
    and "kills (runWrappedCommandPrompt ms parse pre) = 0"
  using latch_first_terminal [OF latch_runWrappedCommandPrompt_step assms, of ms parse initial_state post]
    latch_before_terminal [OF latch_runWrappedCommandPrompt_step assms(1), of ms parse initial_state]
  by (simp_all add: runWrappedCommandPrompt_def initial_state_def)

text \<open>
  C9. Whatever signals arrive and in whatever order, the first of the three terminal
  signals (the timer, the child's error, the child's close) settles the promise, and no
  signal after it settles it again or kills the child: after the signals \<open>pre\<close>, none of
  them terminal, a terminal signal and any signals \<open>post\<close>, the promise has been settled
  exactly once, with the outcome of that terminal signal. A timer that comes first kills
  the child once and rejects with a message that holds \<^verbatim>\<open>timed out after <ms>ms\<close>. A
  terminal signal that finds the operation completed leaves the state as it is. This holds
  for the wrapper of the provider SDK and for the one of the agent server.
\<close>

theorem completion_latch:
  assumes "\<not> list_ex terminal pre"
  shows
    "settled (runCliCommand ms cmd (pre @ TimerFired # post)) =
       [Rejected (''CLI command timed out after '' @ showNat ms @ ''ms: '' @ cmd)] \<and>
     kills (runCliCommand ms cmd (pre @ TimerFired # post)) = 1 \<and>
     settled (runCliCommand ms cmd (pre @ ChildError message # post)) = [Rejected message] \<and>
     kills (runCliCommand ms cmd (pre @ ChildError message # post)) = 0 \<and>
     settled (runCliCommand ms cmd (pre @ ChildClose code # post)) =
       [Resolved (stdoutText (runCliCommand ms cmd pre), stderrText (runCliCommand ms cmd pre),
                  orZero code)] \<and>
     kills (runCliCommand ms cmd (pre @ ChildClose code # post)) = 0 \<and>
     settled (runCliCommand ms cmd pre) = [] \<and>
     (completed st \<and> terminal sg \<longrightarrow> runCliCommand_step ms cmd st sg = st) \<and>
     settled (runWrappedCommandPrompt ms parse (pre @ TimerFired # post)) =
       [Rejected (''Wrapped command timed out after '' @ showNat ms @ ''ms'')] \<and>
     kills (runWrappedCommandPrompt ms parse (pre @ TimerFired # post)) = 1 \<and>
     settled (runWrappedCommandPrompt ms parse (pre @ ChildError message # post)) = [Rejected message] \<and>
     kills (runWrappedCommandPrompt ms parse (pre @ ChildError message # post)) = 0 \<and>
     settled (runWrappedCommandPrompt ms parse (pre @ ChildClose code # post)) =
       [if orZero code \<noteq> 0
        then Rejected (wrappedFailureMessage (stdoutText (runWrappedCommandPrompt ms parse pre))
                         (stderrText (runWrappedCommandPrompt ms parse pre)) (orZero code))
        else Resolved (normalizeCliOutput (stdoutText (runWrappedCommandPrompt ms parse pre))
                         (stderrText (runWrappedCommandPrompt ms parse pre)) parse)] \<and>
     kills (runWrappedCommandPrompt ms parse (pre @ ChildClose code # post)) = 0 \<and>
     settled (runWrappedCommandPrompt ms parse pre) = [] \<and>
     (completed st' \<and> terminal sg \<longrightarrow> runWrappedCommandPrompt_step ms parse st' sg = st')"
proof -
  have a: "completed st \<and> terminal sg \<longrightarrow> runCliCommand_step ms cmd st sg = st"
    by (cases sg) auto
  have b: "completed st' \<and> terminal sg \<longrightarrow> runWrappedCommandPrompt_step ms parse st' sg = st'"
    by (cases sg) auto
  have t: "terminal TimerFired" "terminal (ChildError message)" "terminal (ChildClose code)"
    by simp_all
  note c = runCliCommand_first_terminal [OF assms]
  note d = runWrappedCommandPrompt_first_terminal [OF assms]
  show ?thesis
    using a b c(1,2) [OF t(1), of ms cmd post] c(1,2) [OF t(2), of ms cmd post]
      c(1,2) [OF t(3), of ms cmd post] c(3,4,5) [OF t(1), of ms cmd]
      d(1,2) [OF t(1), of ms parse post] d(1,2) [OF t(2), of ms parse post]
      d(1,2) [OF t(3), of ms parse post] d(3,4,5) [OF t(1), of ms parse]
    by (simp add: Let_def)
qed

theorem completion_latch_witness:
  "\<not> list_ex terminal [StdoutData ''out'', StderrData ''err''] \<and>
   settled (runCliCommand 5 ''codex''
      ([StdoutData ''out'', StderrData ''err''] @ TimerFired # [ChildClose (Some 0), ChildError ''late''])) =
     [Rejected ''CLI command timed out after 5ms: codex''] \<and>
   kills (runCliCommand 5 ''codex''
      ([StdoutData ''out'', StderrData ''err''] @ TimerFired # [ChildClose (Some 0), ChildError ''late''])) = 1 \<and>
   settled (runCliCommand 5 ''codex''
      ([StdoutData ''out'', StderrData ''err''] @ ChildClose (Some 2) # [ChildClose (Some 0), ChildError ''late''])) =
     [Resolved (''out'', ''err'', 2)] \<and>
   settled (runWrappedCommandPrompt 5 TextMode
      ([StdoutData ''out'', StderrData ''err''] @ ChildClose (Some 2) # [ChildClose (Some 0), ChildError ''late''])) =
     [Rejected ''err''] \<and>
   completed (runCliCommand 5 ''codex'' [TimerFired]) \<and> terminal (ChildClose None) \<and>
   runCliCommand_step 5 ''codex'' (runCliCommand 5 ''codex'' [TimerFired]) (ChildClose None) =
     runCliCommand 5 ''codex'' [TimerFired] \<and>
   completed (runWrappedCommandPrompt 5 TextMode [ChildError ''x'']) \<and>
   runWrappedCommandPrompt_step 5 TextMode (runWrappedCommandPrompt 5 TextMode [ChildError ''x'']) (ChildClose None) =
     runWrappedCommandPrompt 5 TextMode [ChildError ''x'']"
proof -
  have h: "\<not> list_ex terminal [StdoutData ''out'', StderrData ''err'']" by simp
  have s: "stdoutText (runCliCommand 5 ''codex'' [StdoutData ''out'', StderrData ''err'']) = ''out''"
    "stderrText (runCliCommand 5 ''codex'' [StdoutData ''out'', StderrData ''err'']) = ''err''"
    "stdoutText (runWrappedCommandPrompt 5 TextMode [StdoutData ''out'', StderrData ''err'']) = ''out''"
    "stderrText (runWrappedCommandPrompt 5 TextMode [StdoutData ''out'', StderrData ''err'']) = ''err''"
    "completed (runCliCommand 5 ''codex'' [TimerFired])"
    "completed (runWrappedCommandPrompt 5 TextMode [ChildError ''x''])"
    by (simp_all add: runCliCommand_def runWrappedCommandPrompt_def initial_state_def)
  have n: "showNat 5 = ''5''" by (simp add: digitChar_def)
  have w: "wrappedFailureMessage ''out'' ''err'' 2 = ''err''"
    by (simp add: wrappedFailureMessage_def errorText_def trim_def is_ws_def)
  have o: "orZero (Some 2) = 2" by (simp add: orZero_def)
  from completion_latch [OF h, of 5 "''codex''" "[ChildClose (Some 0), ChildError ''late'']"
        "''late''" "Some 2" "runCliCommand 5 ''codex'' [TimerFired]" "ChildClose None" TextMode
        "runWrappedCommandPrompt 5 TextMode [ChildError ''x'']"]
  show ?thesis
    unfolding s n w o using h s(5,6) by simp
qed

section \<open>Properties of the output normalizer\<close>









lemma concat_map_filter: "concat (map f (filter P xs)) = concat (map (\<lambda>x. if P x then f x else []) xs)"
  by (induction xs) auto




section \<open>The streaming endpoint\<close>

lemma JSON_stringify_event_starts: "\<exists>t. JSON_stringify_event e = CHR ''{'' # t"
  by (cases e) (simp_all add: JSON_stringify_event_def)

lemma JSON_stringify_event_not_done: "''[DONE]'' \<noteq> JSON_stringify_event e"
  using JSON_stringify_event_starts [of e] by auto

text \<open>
  C4. When the event sequence completes, the handler writes a frame for each event and
  then the frame \<^verbatim>\<open>data: [DONE]\<close>. When the sequence fails, it writes the frames of
  the events yielded before the failure and then exactly one frame more, the error event
  with code \<^verbatim>\<open>provider_error\<close>, \<^verbatim>\<open>retryable\<close> false and the message of the thrown
  error (a fixed message if the thrown value is no error); no \<^verbatim>\<open>[DONE]\<close> frame is
  written then.
\<close>

theorem chatStream_handler_frames:
  "chatStreamWrites (events, None) = map JSON_stringify_event events @ [''[DONE]''] \<and>
   chatStreamResponse (events, None) =
     concat (map (\<lambda>e. writeSSE (JSON_stringify_event e)) events) @ ''data: [DONE]\<newline>\<newline>'' \<and>
   chatStreamWrites (events, Some (ErrorThrown message)) =
     map JSON_stringify_event events @
     [JSON_stringify_event (ErrorEvent ''provider_error'' message False)] \<and>
   chatStreamWrites (events, Some OtherThrown) =
     map JSON_stringify_event events @
     [JSON_stringify_event (ErrorEvent ''provider_error'' ''Unknown provider error'' False)] \<and>
   chatStreamResponse (events, Some (ErrorThrown message)) =
     concat (map (\<lambda>e. writeSSE (JSON_stringify_event e)) events) @
     writeSSE (JSON_stringify_event (ErrorEvent ''provider_error'' message False)) \<and>
   ''[DONE]'' \<notin> set (chatStreamWrites (events, Some failure))"
proof -
  have "''[DONE]'' \<notin> set (chatStreamWrites (events, Some failure))"
    by (cases failure) (auto simp: chatStreamWrites_def JSON_stringify_event_not_done)
  then show ?thesis
    by (simp add: chatStreamWrites_def chatStreamResponse_def writeSSE_def comp_def)
qed

section \<open>The ordering contract\<close>

lemma wellFormedTurn_cliSendMessageStream:
  "wellFormedTurn (served (cliSendMessageStream adapterKind parse messageId createdAt endedAt threadId run))"
  by (cases run)
     (simp_all add: cliSendMessageStream_def served_def Let_def list_all_iff butlast_append)

lemma wellFormedTurn_runWrappedCommandStream:
  "wellFormedTurn (served (runWrappedCommandStream messageId createdAt endedAt threadId outcome))"
  by (cases outcome)
     (simp_all add: runWrappedCommandStream_def served_def Let_def list_all_iff butlast_append)

lemma wellFormedTurn_remoteJsonEnvelope:
  "wellFormedTurn (remoteJsonEnvelope messageId createdAt threadId body)"
  by (simp add: remoteJsonEnvelope_def Let_def)

lemma wellFormedTurn_chatStreamFallback:
  "wellFormedTurn (chatStreamFallback startId endId startedAt endedAt threadId fallbackPayload)
     = (endId = startId)"
  by (simp add: chatStreamFallback_def Let_def)

text \<open>
  C1. The fallback of the client for a response that is not an event stream takes the
  message id of \<^verbatim>\<open>message_end\<close> from a second call of \<^verbatim>\<open>randomId()\<close>: for the
  body \<^verbatim>\<open>{"text":"hi"}\<close> and the ids \<^verbatim>\<open>id-1\<close> and \<^verbatim>\<open>id-2\<close> of the two calls, the
  sequence starts with the id \<^verbatim>\<open>id-1\<close> and ends with the id \<^verbatim>\<open>id-2\<close>, so it breaks
  the ordering contract.
\<close>

theorem chatStreamFallback_two_ids:
  "chatStreamFallback ''id-1'' ''id-2'' startedAt endedAt threadId (JObj [(''text'', JStr ''hi'')]) =
     [MessageStart ''id-1'' threadId startedAt, Token ''hi'',
      MessageEnd ''id-2'' ''hi'' Received endedAt] \<and>
   \<not> wellFormedTurn
       (chatStreamFallback ''id-1'' ''id-2'' startedAt endedAt threadId (JObj [(''text'', JStr ''hi'')]))"
  by (simp add: chatStreamFallback_def stringProperty_def Let_def)

section \<open>The events of a payload\<close>

text \<open>
  C3, as stated, fails: \<^verbatim>\<open>parseSseEvents\<close> yields no event for the payload
  \<^verbatim>\<open>{"foo":1}\<close>, which is JSON, is no stream event and has no text or token.
\<close>

theorem payloadEvents_dropped_counterexample:
  \<open>payloadEvents isoDatetime ''{"foo":1}'' = []\<close>
  by code_simp

text \<open>
  C3, amended. For a payload other than \<^verbatim>\<open>[DONE]\<close>, \<^verbatim>\<open>parseSseEvents\<close> yields the
  event itself when the payload parses and validates; a token with the string property
  text, or else with the string property token, when the payload parses and does not
  validate; a token with the payload when the payload does not parse; and nothing when the
  payload parses, does not validate and has neither string property. The client's
  \<^verbatim>\<open>chatStream\<close> yields exactly one event for every non-empty payload other than
  \<^verbatim>\<open>[DONE]\<close>: the event itself when the payload parses and validates, else a token
  with the payload.
\<close>

theorem payload_events:
  assumes "payload \<noteq> ''[DONE]''"
  shows
    "(JSON_parse payload = Some parsedJson \<and>
        StreamEventSchema_safeParse datetime parsedJson = Some event \<longrightarrow>
        payloadEvents datetime payload = [event]) \<and>
     (JSON_parse payload = Some parsedJson \<and>
        StreamEventSchema_safeParse datetime parsedJson = None \<and>
        stringProperty parsedJson ''text'' = Some t \<longrightarrow>
        payloadEvents datetime payload = [Token t]) \<and>
     (JSON_parse payload = Some parsedJson \<and>
        StreamEventSchema_safeParse datetime parsedJson = None \<and>
        stringProperty parsedJson ''text'' = None \<and>
        stringProperty parsedJson ''token'' = Some t \<longrightarrow>
        payloadEvents datetime payload = [Token t]) \<and>
     (JSON_parse payload = None \<longrightarrow> payloadEvents datetime payload = [Token payload]) \<and>
     (JSON_parse payload = Some parsedJson \<and>
        StreamEventSchema_safeParse datetime parsedJson = None \<and>
        stringProperty parsedJson ''text'' = None \<and>
        stringProperty parsedJson ''token'' = None \<longrightarrow>
        payloadEvents datetime payload = []) \<and>
     (payload \<noteq> [] \<and> JSON_parse payload = Some parsedJson \<and>
        StreamEventSchema_safeParse datetime parsedJson = Some event \<longrightarrow>
        chatStreamData datetime payload = [event]) \<and>
     (payload \<noteq> [] \<and> JSON_parse payload = Some parsedJson \<and>
        StreamEventSchema_safeParse datetime parsedJson = None \<longrightarrow>
        chatStreamData datetime payload = [Token payload]) \<and>
     (payload \<noteq> [] \<and> JSON_parse payload = None \<longrightarrow>
        chatStreamData datetime payload = [Token payload]) \<and>
     (payload \<noteq> [] \<longrightarrow> length (chatStreamData datetime payload) = 1)"
  using assms
  by (auto simp: payloadEvents_def chatStreamData_def split: option.splits)

theorem payload_events_witness:
  \<open>''{"type":"token","text":"hi"}'' \<noteq> ''[DONE]'' \<and>
   JSON_parse ''{"type":"token","text":"hi"}'' =
     Some (JObj [(''type'', JStr ''token''), (''text'', JStr ''hi'')]) \<and>
   StreamEventSchema_safeParse isoDatetime (JObj [(''type'', JStr ''token''), (''text'', JStr ''hi'')]) =
     Some (Token ''hi'') \<and>
   payloadEvents isoDatetime ''{"type":"token","text":"hi"}'' = [Token ''hi''] \<and>
   chatStreamData isoDatetime ''{"type":"token","text":"hi"}'' = [Token ''hi''] \<and>
   JSON_parse ''{"text":"t","token":"k"}'' = Some (JObj [(''text'', JStr ''t''), (''token'', JStr ''k'')]) \<and>
   StreamEventSchema_safeParse isoDatetime (JObj [(''text'', JStr ''t''), (''token'', JStr ''k'')]) = None \<and>
   payloadEvents isoDatetime ''{"text":"t","token":"k"}'' = [Token ''t''] \<and>
   chatStreamData isoDatetime ''{"text":"t","token":"k"}'' = [Token ''{"text":"t","token":"k"}''] \<and>
   JSON_parse ''{"token":"k"}'' = Some (JObj [(''token'', JStr ''k'')]) \<and>
   payloadEvents isoDatetime ''{"token":"k"}'' = [Token ''k''] \<and>
   JSON_parse ''not json'' = None \<and>
   payloadEvents isoDatetime ''not json'' = [Token ''not json''] \<and>
   chatStreamData isoDatetime ''not json'' = [Token ''not json''] \<and>
   JSON_parse ''{"foo":1}'' = Some (JObj [(''foo'', JNum 1)]) \<and>
   payloadEvents isoDatetime ''{"foo":1}'' = [] \<and>
   length (chatStreamData isoDatetime ''{"foo":1}'') = 1\<close>
proof -
  let ?dt = \<open>isoDatetime\<close>
  let ?p1 = \<open>''{"type":"token","text":"hi"}''\<close>
  let ?j1 = \<open>JObj [(''type'', JStr ''token''), (''text'', JStr ''hi'')]\<close>
  let ?p2 = \<open>''{"text":"t","token":"k"}''\<close>
  let ?j2 = \<open>JObj [(''text'', JStr ''t''), (''token'', JStr ''k'')]\<close>
  let ?p3 = \<open>''{"token":"k"}''\<close>
  let ?j3 = \<open>JObj [(''token'', JStr ''k'')]\<close>
  let ?p4 = \<open>''not json''\<close>
  let ?p5 = \<open>''{"foo":1}''\<close>
  let ?j5 = \<open>JObj [(''foo'', JNum 1)]\<close>
  have n: \<open>?p1 \<noteq> ''[DONE]''\<close> \<open>?p2 \<noteq> ''[DONE]''\<close> \<open>?p3 \<noteq> ''[DONE]''\<close>
    \<open>?p4 \<noteq> ''[DONE]''\<close> \<open>?p5 \<noteq> ''[DONE]''\<close>
    by simp_all
  have p: \<open>JSON_parse ?p1 = Some ?j1\<close> \<open>JSON_parse ?p2 = Some ?j2\<close>
    \<open>JSON_parse ?p3 = Some ?j3\<close> \<open>JSON_parse ?p4 = None\<close> \<open>JSON_parse ?p5 = Some ?j5\<close>
    by code_simp+
  have v: \<open>StreamEventSchema_safeParse ?dt ?j1 = Some (Token ''hi'')\<close>
    \<open>StreamEventSchema_safeParse ?dt ?j2 = None\<close>
    \<open>StreamEventSchema_safeParse ?dt ?j3 = None\<close>
    \<open>StreamEventSchema_safeParse ?dt ?j5 = None\<close>
    by (simp_all add: StreamEventSchema_safeParse_def reqString_def)
  have t: \<open>stringProperty ?j2 ''text'' = Some ''t''\<close> \<open>stringProperty ?j3 ''text'' = None\<close>
    \<open>stringProperty ?j3 ''token'' = Some ''k''\<close> \<open>stringProperty ?j5 ''text'' = None\<close>
    \<open>stringProperty ?j5 ''token'' = None\<close>
    by (simp_all add: stringProperty_def)
  note w1 = payload_events [OF n(1), of ?j1 ?dt \<open>Token ''hi''\<close> \<open>''t''\<close>]
  note w2 = payload_events [OF n(2), of ?j2 ?dt \<open>Token ''hi''\<close> \<open>''t''\<close>]
  note w3 = payload_events [OF n(3), of ?j3 ?dt \<open>Token ''hi''\<close> \<open>''k''\<close>]
  note w4 = payload_events [OF n(4), of ?j1 ?dt \<open>Token ''hi''\<close> \<open>''t''\<close>]
  note w5 = payload_events [OF n(5), of ?j5 ?dt \<open>Token ''hi''\<close> \<open>''t''\<close>]
  have r1: \<open>payloadEvents ?dt ?p1 = [Token ''hi'']\<close> \<open>chatStreamData ?dt ?p1 = [Token ''hi'']\<close>
    using w1 p(1) v(1) by simp_all
  have r2: \<open>payloadEvents ?dt ?p2 = [Token ''t'']\<close> \<open>chatStreamData ?dt ?p2 = [Token ?p2]\<close>
    using w2 p(2) v(2) t(1) by simp_all
  have r3: \<open>payloadEvents ?dt ?p3 = [Token ''k'']\<close>
    using w3 p(3) v(3) t(2,3) by simp
  have r4: \<open>payloadEvents ?dt ?p4 = [Token ?p4]\<close> \<open>chatStreamData ?dt ?p4 = [Token ?p4]\<close>
    using w4 p(4) by simp_all
  have r5: \<open>payloadEvents ?dt ?p5 = []\<close> \<open>length (chatStreamData ?dt ?p5) = 1\<close>
    using w5 p(5) v(4) t(4,5) by simp_all
  show ?thesis
    using n(1) p v(1,2) r1 r2 r3 r4 r5 by simp
qed

section \<open>Parsing what JSON.stringify writes\<close>

lemma hex_val_hexDigit: "d < 16 \<Longrightarrow> hex_val (hexDigit d) = Some d"
proof -
  have "list_all (\<lambda>d. hex_val (hexDigit d) = Some d) [0..<16]" by code_simp
  then show "d < 16 \<Longrightarrow> hex_val (hexDigit d) = Some d"
    by (simp add: list_all_iff)
qed

lemma parse_chars_escapeChar:
  "parse_chars (escapeChar c @ tail) = map_option (apfst ((#) c)) (parse_chars tail)"
proof -
  consider (quote) "c = CHR 0x22" | (backslash) "c = CHR 0x5C"
    | (b) "c = CHR 0x08" | (f) "c = CHR 0x0C" | (n) "c = CHR 0x0A" | (r) "c = CHR 0x0D"
    | (t) "c = CHR 0x09"
    | (control) "c \<notin> {CHR 0x22, CHR 0x5C, CHR 0x08, CHR 0x0C, CHR 0x0A, CHR 0x0D, CHR 0x09}"
        "(of_char c :: nat) < 0x20"
    | (plain) "c \<noteq> CHR 0x22" "c \<noteq> CHR 0x5C" "\<not> (of_char c :: nat) < 0x20"
    by (cases "(of_char c :: nat) < 0x20") auto
  then show ?thesis
  proof cases
    case control
    let ?n = "of_char c :: nat"
    have z: "hex_val CHR ''0'' = Some 0" by (simp add: hex_val_def)
    have d: "?n div 16 < 16" "?n mod 16 < 16" using control(2) by simp_all
    have h: "hex4 [CHR ''0'', CHR ''0'', hexDigit (?n div 16), hexDigit (?n mod 16)] = Some ?n"
      by (simp add: z hex_val_hexDigit [OF d(1)] hex_val_hexDigit [OF d(2)])
    have e: "escapeChar c = [CHR 0x5C, CHR ''u'', CHR ''0'', CHR ''0'', hexDigit (?n div 16), hexDigit (?n mod 16)]"
      using control by (simp add: escapeChar_def)
    have u: "code_unit_bytes ?n = [c]" using control(2) by (simp add: code_unit_bytes_def)
    have a: "(@) [c] = (#) c" by (rule ext) simp
    show ?thesis unfolding e using h by (simp add: u a del: hex4.simps)
  qed (simp_all add: escapeChar_def unescape_def)
qed

lemma parse_chars_quoted:
  "parse_chars (concat (map escapeChar s) @ CHR 0x22 # rest) = Some (s, rest)"
proof (induction s)
  case Nil
  show ?case by simp
next
  case (Cons c s)
  then show ?case by (simp add: parse_chars_escapeChar del: parse_chars.simps)
qed

lemma digitChar_facts:
  "d < 10 \<Longrightarrow> is_digit (digitChar d) \<and> digit_val (digitChar d) = d \<and>
     (digitChar d = CHR ''0'') = (d = 0) \<and> digitChar d \<noteq> CHR ''-''"
proof -
  have "list_all (\<lambda>d. is_digit (digitChar d) \<and> digit_val (digitChar d) = d \<and>
     (digitChar d = CHR ''0'') = (d = 0) \<and> digitChar d \<noteq> CHR ''-'') [0..<10]"
    by code_simp
  then show "d < 10 \<Longrightarrow> is_digit (digitChar d) \<and> digit_val (digitChar d) = d \<and>
     (digitChar d = CHR ''0'') = (d = 0) \<and> digitChar d \<noteq> CHR ''-''"
    by (simp add: list_all_iff)
qed

lemma showNat_digits: "showNat n \<noteq> [] \<and> list_all is_digit (showNat n)"
proof (induction n rule: showNat.induct)
  case (1 n)
  show ?case
  proof (cases "n < 10")
    case True
    then show ?thesis using digitChar_facts [of n] by simp
  next
    case False
    have "n mod 10 < 10" by simp
    with 1 False digitChar_facts [of "n mod 10"] show ?thesis
      by (subst showNat.simps, subst (2) showNat.simps) simp
  qed
qed

lemma nat_of_digits_snoc: "nat_of_digits (ds @ [d]) = 10 * nat_of_digits ds + digit_val d"
  by (simp add: nat_of_digits_def)

lemma nat_of_digits_showNat: "nat_of_digits (showNat n) = n"
proof (induction n rule: showNat.induct)
  case (1 n)
  show ?case
  proof (cases "n < 10")
    case True
    then show ?thesis using digitChar_facts [of n] by (simp add: nat_of_digits_def)
  next
    case False
    have "n mod 10 < 10" by simp
    with 1 False digitChar_facts [of "n mod 10"] show ?thesis
      by (subst showNat.simps) (simp add: nat_of_digits_snoc)
  qed
qed

lemma hd_showNat: "0 < n \<Longrightarrow> hd (showNat n) \<noteq> CHR ''0''"
proof (induction n rule: showNat.induct)
  case (1 n)
  show ?case
  proof (cases "n < 10")
    case True
    then show ?thesis using digitChar_facts [of n] "1.prems" by simp
  next
    case False
    then have "0 < n div 10" by simp
    with 1 False showNat_digits [of "n div 10"] show ?thesis
      by (subst showNat.simps) simp
  qed
qed

lemma takeWhile_digits:
  "list_all is_digit ds \<Longrightarrow> ends_number rest \<Longrightarrow>
     takeWhile is_digit (ds @ rest) = ds \<and> dropWhile is_digit (ds @ rest) = rest"
  by (induction ds) (auto simp: ends_number_def split: list.splits)

lemma hd_digit_not_minus: "is_digit c \<Longrightarrow> c \<noteq> CHR ''-''"
  by (auto simp: is_digit_def)

lemma parse_number_showNat:
  assumes "ends_number rest"
  shows "parse_number (showNat n @ rest) = Some (of_nat n, rest)"
proof -
  obtain c cs where s: "showNat n = c # cs"
    using showNat_digits [of n] by (cases "showNat n") auto
  have dg: "list_all is_digit (c # cs)" using showNat_digits [of n] s by simp
  then have c: "c \<noteq> CHR ''-''" using hd_digit_not_minus by simp
  have fr: "number_frac rest = Some ([], rest)"
    using assms by (auto simp: number_frac_def ends_number_def split: list.splits)
  have ex: "number_exp rest = Some (0, rest)"
    using assms by (auto simp: number_exp_def ends_number_def split: list.splits)
  have nd: "nat_of_digits (c # cs) = n" using nat_of_digits_showNat [of n] s by simp
  show ?thesis
  proof (cases "n = 0")
    case True
    then have "c = CHR ''0''" "cs = []" using s by (simp_all add: digitChar_def)
    then show ?thesis
      using True fr ex s by (simp add: parse_number_def scale10_def nat_of_digits_def digit_val_def)
  next
    case False
    then have "c \<noteq> CHR ''0''" using hd_showNat [of n] s by simp
    moreover have "takeWhile is_digit ((c # cs) @ rest) = c # cs"
      using takeWhile_digits [OF dg assms] by simp
    ultimately show ?thesis
      using c fr ex nd s by (simp add: parse_number_def scale10_def Let_def)
  qed
qed

lemma ends_value_number: "ends_value rest \<Longrightarrow> ends_number rest"
  by (auto simp: ends_value_def ends_number_def is_digit_def split: list.splits)

lemma is_digit_starts: "is_digit c \<Longrightarrow> \<not> json_ws c \<and> c \<noteq> CHR '']'' \<and> c \<noteq> CHR ''}''"
  by (auto simp: is_digit_def json_ws_def)

lemma showInt_of_nat: "showInt (int k) = showNat k"
  by (simp add: showInt_def)

lemma JSON_stringify_num: "r = of_nat (nat \<lfloor>r\<rfloor>) \<Longrightarrow> JSON_stringify (JNum r) = showNat (nat \<lfloor>r\<rfloor>)"
proof -
  assume a: "r = of_nat (nat \<lfloor>r\<rfloor>)"
  then have "0 \<le> r" by (metis of_nat_0_le_iff)
  then have "\<lfloor>r\<rfloor> = int (nat \<lfloor>r\<rfloor>)" by simp
  then show ?thesis using showInt_of_nat [of "nat \<lfloor>r\<rfloor>"] by simp
qed

lemma starts_value_stringify: "writable v \<Longrightarrow> starts_value (JSON_stringify v @ rest)"
proof (cases v)
  case (JNum r)
  assume "writable v"
  with JNum have s: "JSON_stringify v = showNat (nat \<lfloor>r\<rfloor>)" using JSON_stringify_num by simp
  obtain c cs where "showNat (nat \<lfloor>r\<rfloor>) = c # cs" "is_digit c"
    using showNat_digits [of "nat \<lfloor>r\<rfloor>"] by (cases "showNat (nat \<lfloor>r\<rfloor>)") auto
  then show ?thesis using s is_digit_starts by (simp add: starts_value_def)
qed (simp_all add: starts_value_def json_ws_def quoteJSON_def)

lemma skip_ws_starts: "starts_value s \<Longrightarrow> skip_ws s = s"
  by (cases s) (simp_all add: starts_value_def skip_ws_def)

lemma skip_ws_ends: "ends_value (c # cs) \<Longrightarrow> skip_ws (c # cs) = c # cs"
  by (auto simp: ends_value_def skip_ws_def json_ws_def)

lemma parse_scalar_stringify:
  assumes "ends_value rest" "writable v" "\<forall>items. v \<noteq> JArr items" "\<forall>props. v \<noteq> JObj props"
  shows "parse_scalar (JSON_stringify v @ rest) = Some (v, rest) \<and>
         (\<exists>c t. JSON_stringify v @ rest = c # t \<and> c \<noteq> CHR ''['' \<and> c \<noteq> CHR ''{'')"
proof (cases v)
  case JNull
  then show ?thesis by (simp add: parse_scalar_def startsWith_def)
next
  case (JBool b)
  then show ?thesis by (cases b) (simp_all add: parse_scalar_def startsWith_def)
next
  case (JNum r)
  let ?k = "nat \<lfloor>r\<rfloor>"
  from JNum assms(2) have r: "r = of_nat ?k" by simp
  with JNum have s: "JSON_stringify v = showNat ?k" using JSON_stringify_num by simp
  obtain c cs where cs: "showNat ?k = c # cs" "is_digit c"
    using showNat_digits [of ?k] by (cases "showNat ?k") auto
  then have c: "c \<noteq> CHR 0x22" "c \<noteq> CHR ''t''" "c \<noteq> CHR ''f''" "c \<noteq> CHR ''n''"
    "c \<noteq> CHR ''[''" "c \<noteq> CHR ''{''"
    by (auto simp: is_digit_def)
  have "parse_number (showNat ?k @ rest) = Some (of_nat ?k, rest)"
    using parse_number_showNat [OF ends_value_number [OF assms(1)]] .
  then have "parse_number (c # cs @ rest) = Some (r, rest)" using cs(1) r by simp
  then show ?thesis using s cs(1) c JNum
    by (simp add: parse_scalar_def startsWith_def)
next
  case (JStr s)
  then show ?thesis
    using parse_chars_quoted [of s rest]
    by (simp add: parse_scalar_def quoteJSON_def del: parse_chars.simps)
next
  case (JArr items)
  with assms(3) show ?thesis by simp
next
  case (JObj props)
  with assms(4) show ?thesis by simp
qed

lemma parse_elements_stringify:
  assumes "\<forall>v \<in> set items. writable v \<and> reads_back v" "items \<noteq> []"
    "length (join '','' (map JSON_stringify items)) + 1 \<le> n"
  shows "parse_elements n (join '','' (map JSON_stringify items) @ CHR '']'' # rest) = Some (items, rest)"
  using assms
proof (induction items arbitrary: n)
  case Nil
  then show ?case by simp
next
  case (Cons v vs)
  from Cons.prems(3) obtain m where n: "n = Suc m" by (cases n) auto
  from Cons.prems(1) have rb: "reads_back v" by simp
  show ?case
  proof (cases vs)
    case Nil
    have "length (JSON_stringify v) \<le> m" using Cons.prems(3) n Nil by simp
    moreover have "ends_value (CHR '']'' # rest)" by (simp add: ends_value_def)
    ultimately have "parse_value m (JSON_stringify v @ CHR '']'' # rest) = Some (v, CHR '']'' # rest)"
      using rb unfolding reads_back_def by blast
    then show ?thesis using n Nil by (simp add: skip_ws_def json_ws_def)
  next
    case (Cons w ws)
    let ?tail = "join '','' (map JSON_stringify vs) @ CHR '']'' # rest"
    have j: "join '','' (map JSON_stringify (v # vs)) = JSON_stringify v @ '','' @ join '','' (map JSON_stringify vs)"
      using Cons by simp
    have "length (JSON_stringify v) \<le> m" using Cons.prems(3) n j by simp
    moreover have "ends_value (CHR '','' # ?tail)" by (simp add: ends_value_def)
    ultimately have pv: "parse_value m (JSON_stringify v @ CHR '','' # ?tail) = Some (v, CHR '','' # ?tail)"
      using rb unfolding reads_back_def by blast
    have "length (join '','' (map JSON_stringify vs)) + 1 \<le> m" using Cons.prems(3) n j by simp
    with Cons.IH [of m] Cons.prems(1) Cons have "parse_elements m ?tail = Some (vs, rest)" by simp
    then show ?thesis using n j pv by (simp add: skip_ws_def json_ws_def)
  qed
qed

lemma setProperty_new:
  "k \<notin> set (map fst acc) \<Longrightarrow> \<not> isArrayIndex k \<Longrightarrow> setProperty acc k v = acc @ [(k, v)]"
  by (simp add: setProperty_def)

lemma foldl_setProperty:
  "distinct (map fst (acc @ props)) \<Longrightarrow> list_all (\<lambda>p. \<not> isArrayIndex (fst p)) props \<Longrightarrow>
     foldl (\<lambda>a p. setProperty a (fst p) (snd p)) acc props = acc @ props"
proof (induction props arbitrary: acc)
  case Nil
  then show ?case by simp
next
  case (Cons p props)
  have "setProperty acc (fst p) (snd p) = acc @ [p]"
    using Cons.prems by (simp add: setProperty_new)
  moreover have "distinct (map fst ((acc @ [p]) @ props))" using Cons.prems(1) by simp
  ultimately show ?case using Cons.IH [of "acc @ [p]"] Cons.prems(2) by simp
qed

lemma parse_members_stringify:
  assumes "\<forall>p \<in> set props. writable (snd p) \<and> reads_back (snd p)" "props \<noteq> []"
    "length (join '','' (map memberText props)) + 1 \<le> n"
  shows "parse_members n acc (join '','' (map memberText props) @ CHR ''}'' # rest) =
           Some (foldl (\<lambda>a p. setProperty a (fst p) (snd p)) acc props, rest)"
  using assms
proof (induction props arbitrary: n acc)
  case Nil
  then show ?case by simp
next
  case (Cons p ps)
  note prems = Cons.prems and IH = Cons.IH
  from prems(3) obtain m where n: "n = Suc m" by (cases n) auto
  from prems(1) have rb: "reads_back (snd p)" by simp
  let ?body = "concat (map escapeChar (fst p))"
  have key: "parse_chars (?body @ CHR 0x22 # t) = Some (fst p, t)" for t
    by (rule parse_chars_quoted)
  show ?case
  proof (cases ps)
    case Nil
    let ?after = "CHR ''}'' # rest"
    have tx: "join '','' (map memberText (p # ps)) @ CHR ''}'' # rest =
        CHR 0x22 # ?body @ CHR 0x22 # CHR '':'' # JSON_stringify (snd p) @ ?after"
      using Nil by (simp add: memberText_def quoteJSON_def)
    have "length (JSON_stringify (snd p)) \<le> m"
      using prems(3) n Nil by (simp add: memberText_def)
    moreover have "ends_value ?after" by (simp add: ends_value_def)
    ultimately have pv: "parse_value m (JSON_stringify (snd p) @ ?after) = Some (snd p, ?after)"
      using rb unfolding reads_back_def by blast
    show ?thesis unfolding tx n using pv key Nil
      by (simp add: skip_ws_def json_ws_def del: parse_chars.simps)
  next
    case (Cons q qs)
    let ?tail = "join '','' (map memberText ps) @ CHR ''}'' # rest"
    let ?after = "CHR '','' # ?tail"
    have j: "join '','' (map memberText (p # ps)) = memberText p @ '','' @ join '','' (map memberText ps)"
      using Cons by simp
    have tx: "join '','' (map memberText (p # ps)) @ CHR ''}'' # rest =
        CHR 0x22 # ?body @ CHR 0x22 # CHR '':'' # JSON_stringify (snd p) @ ?after"
      unfolding j by (simp add: memberText_def quoteJSON_def)
    have lj: "length (join '','' (map memberText (p # ps))) =
        length (memberText p) + 1 + length (join '','' (map memberText ps))"
      unfolding j by simp
    have lm: "length (JSON_stringify (snd p)) \<le> length (memberText p)"
      by (simp add: memberText_def)
    have "length (JSON_stringify (snd p)) \<le> m"
      using prems(3) n lj lm by simp
    moreover have "ends_value ?after" by (simp add: ends_value_def)
    ultimately have pv: "parse_value m (JSON_stringify (snd p) @ ?after) = Some (snd p, ?after)"
      using rb unfolding reads_back_def by blast
    have "length (join '','' (map memberText ps)) + 1 \<le> m"
      using prems(3) n lj by simp
    moreover have "\<forall>p \<in> set ps. writable (snd p) \<and> reads_back (snd p)"
      using prems(1) by simp
    moreover have "ps \<noteq> []" using Cons by simp
    ultimately have "parse_members m (setProperty acc (fst p) (snd p)) ?tail =
        Some (foldl (\<lambda>a p. setProperty a (fst p) (snd p)) (setProperty acc (fst p) (snd p)) ps, rest)"
      using IH [of m "setProperty acc (fst p) (snd p)"] by blast
    then show ?thesis unfolding tx n using pv key
      by (simp add: skip_ws_def json_ws_def del: parse_chars.simps)
  qed
qed

lemma reads_back_scalar:
  assumes "writable v" "\<forall>items. v \<noteq> JArr items" "\<forall>props. v \<noteq> JObj props"
  shows "reads_back v"
  unfolding reads_back_def
proof (intro allI impI)
  fix n rest
  assume len: "length (JSON_stringify v) \<le> n" and e: "ends_value rest"
  from parse_scalar_stringify [OF e assms] obtain c t where
    ps: "parse_scalar (JSON_stringify v @ rest) = Some (v, rest)"
    and ct: "JSON_stringify v @ rest = c # t" "c \<noteq> CHR ''[''" "c \<noteq> CHR ''{''"
    by blast
  have "JSON_stringify v \<noteq> []"
    using starts_value_stringify [OF assms(1), of "[]"] by (auto simp: starts_value_def)
  with len obtain m where n: "n = Suc m" by (cases n) auto
  have "skip_ws (JSON_stringify v @ rest) = c # t"
    using skip_ws_starts [OF starts_value_stringify [OF assms(1), of rest]] ct(1) by simp
  then show "parse_value n (JSON_stringify v @ rest) = Some (v, rest)"
    unfolding n using ps ct by simp
qed

lemma reads_back_array:
  assumes "\<forall>v \<in> set items. writable v \<and> reads_back v"
  shows "reads_back (JArr items)"
  unfolding reads_back_def
proof (intro allI impI)
  fix n rest
  assume len: "length (JSON_stringify (JArr items)) \<le> n"
  let ?body = "join '','' (map JSON_stringify items)"
  from len obtain m where n: "n = Suc m" by (cases n) auto
  have tx: "JSON_stringify (JArr items) @ rest = CHR ''['' # ?body @ CHR '']'' # rest" by simp
  have sk: "skip_ws (CHR ''['' # t) = CHR ''['' # t" for t
    by (simp add: skip_ws_def json_ws_def)
  show "parse_value n (JSON_stringify (JArr items) @ rest) = Some (JArr items, rest)"
  proof (cases items)
    case Nil
    then show ?thesis unfolding n by (simp add: skip_ws_def json_ws_def)
  next
    case (Cons v vs)
    have "starts_value (JSON_stringify v @ t)" for t
      using starts_value_stringify assms Cons by simp
    moreover have "\<exists>t. ?body @ CHR '']'' # rest = JSON_stringify v @ t"
      using Cons by (cases vs) simp_all
    ultimately have sv: "starts_value (?body @ CHR '']'' # rest)" by metis
    then obtain d ds where d: "?body @ CHR '']'' # rest = d # ds" "d \<noteq> CHR '']''"
      by (cases "?body @ CHR '']'' # rest") (auto simp: starts_value_def)
    have "length ?body + 1 \<le> m" using len n by simp
    from parse_elements_stringify [OF assms _ this, of rest] Cons
    have pe: "parse_elements m (d # ds) = Some (items, rest)" using d(1) by simp
    have "skip_ws (d # ds) = d # ds" using skip_ws_starts [OF sv] d(1) by simp
    then show ?thesis unfolding tx n using pe d sk by simp
  qed
qed

lemma JSON_stringify_obj:
  "JSON_stringify (JObj props) = CHR ''{'' # join '','' (map memberText props) @ ''}''"
proof -
  have "(\<lambda>p. quoteJSON (fst p) @ '':'' @ JSON_stringify (snd p)) = memberText"
    by (rule ext) (simp add: memberText_def)
  then show ?thesis by (simp del: append.simps)
qed

lemma reads_back_object:
  assumes "\<forall>p \<in> set props. writable (snd p) \<and> reads_back (snd p)"
    "distinct (map fst props)" "list_all (\<lambda>p. \<not> isArrayIndex (fst p)) props"
  shows "reads_back (JObj props)"
  unfolding reads_back_def
proof (intro allI impI)
  fix n rest
  assume len: "length (JSON_stringify (JObj props)) \<le> n"
  let ?body = "join '','' (map memberText props)"
  from len obtain m where n: "n = Suc m" by (cases n) auto
  have tx: "JSON_stringify (JObj props) @ rest = CHR ''{'' # ?body @ CHR ''}'' # rest"
    unfolding JSON_stringify_obj by simp
  have sk: "skip_ws (CHR ''{'' # t) = CHR ''{'' # t" for t
    by (simp add: skip_ws_def json_ws_def)
  show "parse_value n (JSON_stringify (JObj props) @ rest) = Some (JObj props, rest)"
  proof (cases props)
    case Nil
    then show ?thesis unfolding tx n by (simp add: skip_ws_def json_ws_def)
  next
    case (Cons p ps)
    have "\<exists>t. ?body @ CHR ''}'' # rest = CHR 0x22 # t"
      using Cons by (cases ps) (simp_all add: memberText_def quoteJSON_def)
    then obtain ds where d: "?body @ CHR ''}'' # rest = CHR 0x22 # ds" by blast
    have "length ?body + 1 \<le> m" using len n unfolding JSON_stringify_obj by simp
    from parse_members_stringify [OF assms(1) _ this, of "[]" rest] Cons
    have "parse_members m [] (CHR 0x22 # ds) =
        Some (foldl (\<lambda>a p. setProperty a (fst p) (snd p)) [] props, rest)"
      using d by simp
    then have pm: "parse_members m [] (CHR 0x22 # ds) = Some (props, rest)"
      using foldl_setProperty [of "[]" props] assms(2,3) by simp
    have "skip_ws (CHR 0x22 # ds) = CHR 0x22 # ds" by (simp add: skip_ws_def json_ws_def)
    then show ?thesis unfolding tx n d using pm sk by simp
  qed
qed

lemma writable_reads_back: "writable v \<Longrightarrow> reads_back v"
proof (induction v)
  case (JArr items)
  then show ?case by (simp add: reads_back_array list_all_iff)
next
  case (JObj props)
  have "\<forall>p \<in> set props. writable (snd p) \<and> reads_back (snd p)"
  proof
    fix p assume p: "p \<in> set props"
    then have w: "writable (snd p)" using JObj.prems by (simp add: list_all_iff)
    moreover have "snd p \<in> Basic_BNFs.snds p" by (cases p) simp
    ultimately show "writable (snd p) \<and> reads_back (snd p)" using JObj.IH p by blast
  qed
  then show ?case using JObj.prems by (simp add: reads_back_object)
qed (simp_all add: reads_back_scalar)

lemma JSON_parse_stringify: "writable v \<Longrightarrow> JSON_parse (JSON_stringify v) = Some v"
proof -
  assume "writable v"
  then have "reads_back v" by (rule writable_reads_back)
  moreover have "ends_value []" by (simp add: ends_value_def)
  ultimately have "parse_value (length (JSON_stringify v)) (JSON_stringify v @ []) = Some (v, [])"
    unfolding reads_back_def by blast
  then show ?thesis by (simp add: JSON_parse_def skip_ws_def)
qed

lemma not_index_keys:
  "\<not> isArrayIndex ''id''" "\<not> isArrayIndex ''kind''" "\<not> isArrayIndex ''name''"
  "\<not> isArrayIndex ''mimeType''" "\<not> isArrayIndex ''sizeBytes''" "\<not> isArrayIndex ''uri''"
  "\<not> isArrayIndex ''dataBase64''" "\<not> isArrayIndex ''type''" "\<not> isArrayIndex ''messageId''"
  "\<not> isArrayIndex ''threadId''" "\<not> isArrayIndex ''createdAt''" "\<not> isArrayIndex ''text''"
  "\<not> isArrayIndex ''attachment''" "\<not> isArrayIndex ''isTyping''" "\<not> isArrayIndex ''status''"
  "\<not> isArrayIndex ''code''" "\<not> isArrayIndex ''message''" "\<not> isArrayIndex ''retryable''"
  by (simp_all add: isArrayIndex_def is_digit_def)

lemma writable_nat: "writable (JNum (of_nat b))"
  by simp

lemma writable_attachment: "writable (attachment_to_json a)"
proof (cases a)
  case (Attachment i k n m s u d)
  show ?thesis unfolding Attachment
    by (cases i; cases m; cases s; cases u; cases d)
       (simp_all add: optionalProp_def not_index_keys)
qed

lemma writable_event: "writable (event_to_json e)"
  by (cases e) (simp_all add: not_index_keys writable_attachment del: attachment_to_json.simps)

lemma safeParse_attachment:
  "validAttachment a \<Longrightarrow> AttachmentSchema_safeParse (attachment_to_json a) = Some a"
proof (cases a)
  case (Attachment i k n m s u d)
  assume "validAttachment a"
  then have v: "i \<noteq> Some []" "n \<noteq> []" "m \<noteq> Some []" "u \<noteq> Some []" "d \<noteq> Some []"
    unfolding Attachment by simp_all
  have kn: "parseAttachmentKind (attachmentKindName k) = Some k"
    by (cases k) (simp_all add: parseAttachmentKind_def)
  show ?thesis unfolding Attachment using v kn
    by (cases i; cases m; cases s; cases u; cases d)
       (simp_all add: AttachmentSchema_safeParse_def optionalProp_def optStringMin1_def
          reqString_def reqStringMin1_def optNonnegInt_def)
qed

lemma safeParse_event:
  "validEvent datetime e \<Longrightarrow> StreamEventSchema_safeParse datetime (event_to_json e) = Some e"
proof (cases e)
  case (AttachmentEvent a)
  assume "validEvent datetime e"
  then show ?thesis unfolding AttachmentEvent
    by (simp add: StreamEventSchema_safeParse_def reqString_def safeParse_attachment
        del: attachment_to_json.simps)
next
  case (MessageEnd mid t st c)
  assume "validEvent datetime e"
  moreover have "parseMessageStatus (messageStatusName st) = Some st"
    by (cases st) (simp_all add: parseMessageStatus_def)
  ultimately show ?thesis unfolding MessageEnd
    by (simp add: StreamEventSchema_safeParse_def reqString_def reqStringMin1_def reqDatetime_def)
qed (simp_all add: StreamEventSchema_safeParse_def reqString_def reqStringMin1_def
      reqDatetime_def reqBool_def boolDefault_def)

lemma decode_event:
  "validEvent datetime e \<Longrightarrow>
     chatStreamData datetime (JSON_stringify_event e) = [e] \<and>
     payloadEvents datetime (JSON_stringify_event e) = [e]"
proof -
  assume v: "validEvent datetime e"
  have p: "JSON_parse (JSON_stringify_event e) = Some (event_to_json e)"
    unfolding JSON_stringify_event_def by (rule JSON_parse_stringify [OF writable_event])
  obtain t where t: "JSON_stringify_event e = CHR ''{'' # t"
    using JSON_stringify_event_starts by blast
  then have n: "JSON_stringify_event e \<noteq> []" "JSON_stringify_event e \<noteq> ''[DONE]''" by simp_all
  show ?thesis
    using p n safeParse_event [OF v] by (simp add: chatStreamData_def payloadEvents_def)
qed

section \<open>The text of an event on the wire\<close>

lemma no_break_append [simp]: "no_break (s @ t) = (no_break s \<and> no_break t)"
  by (auto simp: no_break_def)

lemma no_break_Cons [simp]: "no_break (c # s) = (c \<noteq> CHR 0x0A \<and> c \<noteq> CHR 0x0D \<and> no_break s)"
  by (auto simp: no_break_def)

lemma no_break_Nil [simp]: "no_break []"
  by (simp add: no_break_def)

lemma no_break_join: "no_break sep \<Longrightarrow> \<forall>x \<in> set xs. no_break x \<Longrightarrow> no_break (join sep xs)"
  by (induction sep xs rule: join.induct) simp_all

lemma no_break_hexDigit: "d < 16 \<Longrightarrow> hexDigit d \<noteq> CHR 0x0A \<and> hexDigit d \<noteq> CHR 0x0D"
proof -
  have "list_all (\<lambda>d. hexDigit d \<noteq> CHR 0x0A \<and> hexDigit d \<noteq> CHR 0x0D) [0..<16]" by code_simp
  then show "d < 16 \<Longrightarrow> hexDigit d \<noteq> CHR 0x0A \<and> hexDigit d \<noteq> CHR 0x0D"
    by (simp add: list_all_iff)
qed

lemma no_break_escapeChar: "no_break (escapeChar c)"
proof (cases "(of_char c :: nat) < 0x20")
  case True
  then have "(of_char c :: nat) div 16 < 16" "(of_char c :: nat) mod 16 < 16" by simp_all
  then show ?thesis using no_break_hexDigit by (simp add: escapeChar_def)
next
  case False
  then have "c \<noteq> CHR 0x0A" "c \<noteq> CHR 0x0D" by auto
  then show ?thesis using False by (simp add: escapeChar_def)
qed

lemma no_break_quoteJSON: "no_break (quoteJSON s)"
proof -
  have "no_break (concat (map escapeChar s))"
    by (induction s) (simp_all add: no_break_escapeChar)
  then show ?thesis by (simp add: quoteJSON_def)
qed

lemma no_break_digits: "list_all is_digit ds \<Longrightarrow> no_break ds"
  by (induction ds) (auto simp: is_digit_def)

lemma no_break_showInt: "no_break (showInt i)"
  using showNat_digits no_break_digits by (simp add: showInt_def)

lemma no_break_stringify: "no_break (JSON_stringify v)"
proof (induction v)
  case (JArr items)
  then show ?case by (simp add: no_break_join)
next
  case (JObj props)
  have "\<forall>x \<in> set (map memberText props). no_break x"
  proof
    fix x assume "x \<in> set (map memberText props)"
    then obtain p where p: "p \<in> set props" "x = memberText p" by auto
    moreover have "snd p \<in> Basic_BNFs.snds p" by (cases p) simp
    ultimately have "no_break (JSON_stringify (snd p))" using JObj.IH by blast
    then show "no_break x" using p(2) by (simp add: memberText_def no_break_quoteJSON)
  qed
  then show ?case unfolding JSON_stringify_obj by (simp add: no_break_join)
qed (simp_all add: no_break_quoteJSON no_break_showInt)

lemma trim_framed:
  assumes "s \<noteq> []" "\<not> is_ws (hd s)" "\<not> is_ws (last s)"
  shows "trim (CHR '' '' # s) = s"
proof -
  have "dropWhile is_ws (CHR '' '' # s) = s"
    using assms(1,2) by (cases s) (simp_all add: is_ws_def)
  moreover have "dropWhile is_ws (rev s) = rev s"
    using assms(1,3) by (cases "rev s") (simp_all add: last_rev [symmetric] hd_rev)
  ultimately show ?thesis by (simp add: trim_def)
qed

lemma event_text_shape:
  "\<exists>t. JSON_stringify_event e = CHR ''{'' # t \<and> last (JSON_stringify_event e) = CHR ''}''"
proof -
  obtain props where "event_to_json e = JObj props" by (cases e) simp_all
  then show ?thesis unfolding JSON_stringify_event_def by simp
qed

lemma trim_event_text: "trim (CHR '' '' # JSON_stringify_event e) = JSON_stringify_event e"
proof -
  obtain t where t: "JSON_stringify_event e = CHR ''{'' # t" "last (JSON_stringify_event e) = CHR ''}''"
    using event_text_shape by blast
  have a: "JSON_stringify_event e \<noteq> []" "\<not> is_ws (hd (JSON_stringify_event e))"
    using t(1) by (simp_all add: is_ws_def)
  have b: "\<not> is_ws (last (JSON_stringify_event e))"
    unfolding t(2) by (simp add: is_ws_def)
  show ?thesis using a b by (rule trim_framed)
qed

section \<open>Decoding one frame from any chunks\<close>

lemma normalizeCrlf_plain: "CHR 0x0D \<notin> set s \<Longrightarrow> normalizeCrlf s = s"
  by (induction s rule: normalizeCrlf.induct) auto

lemma indexOf_no_newline:
  "CHR 0x0A \<notin> set s \<Longrightarrow>
     indexOf s ''\<newline>\<newline>'' = None \<and> indexOf (s @ ''\<newline>'') ''\<newline>\<newline>'' = None \<and>
     indexOf (s @ ''\<newline>\<newline>'') ''\<newline>\<newline>'' = Some (length s)"
  by (induction s) (auto simp: startsWith_def)

lemma splitOn_from_no_newline:
  "CHR 0x0A \<notin> set s \<Longrightarrow> sep = CHR 0x0A # sep' \<Longrightarrow> splitOn_from cur sep s = [cur @ s]"
  by (induction s arbitrary: cur) (auto simp: startsWith_def)

lemma parseSsePayloadFromText_empty: "parseSsePayloadFromText [] = []"
  by (simp add: parseSsePayloadFromText_def splitOn_def startsWith_def)

lemma frame_data:
  assumes "no_break j" "trim (CHR '' '' # j) = j" "j \<noteq> []"
  shows "parseSsePayloadFromText (''data: '' @ j) = [j]" "dataLines (''data: '' @ j) = [j]"
proof -
  let ?p = "''data: '' @ j"
  have nb: "CHR 0x0A \<notin> set ?p" "CHR 0x0D \<notin> set ?p" using assms(1) by (simp_all add: no_break_def)
  have s2: "splitOn ?p ''\<newline>\<newline>'' = [?p]"
    unfolding splitOn_def using splitOn_from_no_newline [OF nb(1), of "''\<newline>\<newline>''" "''\<newline>''" "[]"] by simp
  have s1: "splitOn ?p ''\<newline>'' = [?p]"
    unfolding splitOn_def using splitOn_from_no_newline [OF nb(1), of "''\<newline>''" "[]" "[]"] by simp
  have st: "startsWith ?p ''data:''" by (simp add: startsWith_def)
  have dr: "drop 5 ?p = CHR '' '' # j" by simp
  show "parseSsePayloadFromText ?p = [j]"
    unfolding parseSsePayloadFromText_def normalizeCrlf_plain [OF nb(2)] s2
    using s1 st assms(2,3) by simp
  show "dataLines ?p = [j]"
    unfolding dataLines_def s1 using st assms(2,3) by simp
qed

lemma drainBuffer_waiting:
  "CHR 0x0D \<notin> set b \<Longrightarrow> indexOf b ''\<newline>\<newline>'' = None \<Longrightarrow> drainBuffer b = ([], b)"
  by (subst drainBuffer.simps) (simp add: normalizeCrlf_plain del: drainBuffer.simps)

lemma drainEvents_waiting:
  "CHR 0x0D \<notin> set b \<Longrightarrow> indexOf b ''\<newline>\<newline>'' = None \<Longrightarrow> drainEvents datetime b = ([], b)"
  by (subst drainEvents.simps) (simp add: normalizeCrlf_plain del: drainEvents.simps)

lemma drainBuffer_frame:
  assumes "no_break p"
  shows "drainBuffer (p @ ''\<newline>\<newline>'') = (parseSsePayloadFromText p, [])"
proof -
  have nb: "CHR 0x0A \<notin> set p" "CHR 0x0D \<notin> set p" using assms by (simp_all add: no_break_def)
  have n: "normalizeCrlf (p @ ''\<newline>\<newline>'') = p @ ''\<newline>\<newline>''"
    using nb(2) by (simp add: normalizeCrlf_plain)
  have i: "indexOf (p @ ''\<newline>\<newline>'') ''\<newline>\<newline>'' = Some (length p)"
    using indexOf_no_newline [OF nb(1)] by simp
  have e: "drainBuffer [] = ([], [])"
    by (rule drainBuffer_waiting) simp_all
  show ?thesis
    by (subst drainBuffer.simps) (simp add: n i e Let_def del: drainBuffer.simps)
qed

lemma drainEvents_frame:
  assumes "no_break p"
  shows "drainEvents datetime (p @ ''\<newline>\<newline>'') =
           (concat (map (payloadEvents datetime) (dataLines p)), [])"
proof -
  have nb: "CHR 0x0A \<notin> set p" "CHR 0x0D \<notin> set p" using assms by (simp_all add: no_break_def)
  have n: "normalizeCrlf (p @ ''\<newline>\<newline>'') = p @ ''\<newline>\<newline>''"
    using nb(2) by (simp add: normalizeCrlf_plain)
  have i: "indexOf (p @ ''\<newline>\<newline>'') ''\<newline>\<newline>'' = Some (length p)"
    using indexOf_no_newline [OF nb(1)] by simp
  have e: "drainEvents datetime [] = ([], [])"
    by (rule drainEvents_waiting) simp_all
  show ?thesis
    by (subst drainEvents.simps) (simp add: n i e Let_def del: drainEvents.simps)
qed

text \<open>A buffer that holds a proper part of the frame holds no boundary.\<close>

lemma partial_frame:
  assumes "no_break p" "b @ r = p @ ''\<newline>\<newline>''" "r \<noteq> []"
  shows "CHR 0x0D \<notin> set b \<and> indexOf b ''\<newline>\<newline>'' = None"
proof -
  have nb: "CHR 0x0A \<notin> set p" "CHR 0x0D \<notin> set p" using assms(1) by (simp_all add: no_break_def)
  have "set b \<subseteq> set (p @ ''\<newline>\<newline>'')" using assms(2) by (metis set_append Un_upper1)
  then have cr: "CHR 0x0D \<notin> set b" using nb(2) by auto
  from assms(2) consider (inside) u where "p = b @ u"
    | (over) u where "b = p @ u" "u @ r = ''\<newline>\<newline>''"
    by (auto simp: append_eq_append_conv2)
  then have "indexOf b ''\<newline>\<newline>'' = None"
  proof cases
    case inside
    then have "CHR 0x0A \<notin> set b" using nb(1) by simp
    then show ?thesis using indexOf_no_newline by blast
  next
    case over
    from over(2) assms(3) have "u = [] \<or> u = ''\<newline>''"
      by (cases u; cases "tl u") (auto simp: Cons_eq_append_conv)
    then show ?thesis using over(1) indexOf_no_newline [OF nb(1)] by auto
  qed
  with cr show ?thesis by simp
qed

lemma parseSseData_from_idle:
  "concat chunks = [] \<Longrightarrow> parseSseData_from [] chunks = []"
proof (induction chunks)
  case Nil
  then show ?case by (simp add: parseSsePayloadFromText_empty)
next
  case (Cons c cs)
  have "drainBuffer [] = ([], [])" by (rule drainBuffer_waiting) simp_all
  with Cons show ?case by simp
qed

lemma parseSseEvents_from_idle:
  "concat chunks = [] \<Longrightarrow> parseSseEvents_from datetime [] chunks = []"
proof (induction chunks)
  case Nil
  then show ?case by simp
next
  case (Cons c cs)
  have "drainEvents datetime [] = ([], [])" by (rule drainEvents_waiting) simp_all
  with Cons show ?case by simp
qed

lemma parseSseData_from_frame:
  assumes "no_break p"
  shows "b @ concat chunks = p @ ''\<newline>\<newline>'' \<Longrightarrow> concat chunks \<noteq> [] \<Longrightarrow>
           parseSseData_from b chunks = parseSsePayloadFromText p"
proof (induction chunks arbitrary: b)
  case Nil
  then show ?case by simp
next
  case (Cons c cs)
  show ?case
  proof (cases "concat cs = []")
    case True
    have "b @ c = p @ ''\<newline>\<newline>''" using Cons.prems(1) unfolding concat.simps True by simp
    then show ?thesis
      using drainBuffer_frame [OF assms] parseSseData_from_idle [OF True] by simp
  next
    case False
    have "(b @ c) @ concat cs = p @ ''\<newline>\<newline>''" using Cons.prems(1) by simp
    from partial_frame [OF assms this False]
    have "drainBuffer (b @ c) = ([], b @ c)" using drainBuffer_waiting by blast
    moreover have "parseSseData_from (b @ c) cs = parseSsePayloadFromText p"
      using Cons.IH [of "b @ c"] Cons.prems(1) False by simp
    ultimately show ?thesis by simp
  qed
qed

lemma parseSseEvents_from_frame:
  assumes "no_break p"
  shows "b @ concat chunks = p @ ''\<newline>\<newline>'' \<Longrightarrow> concat chunks \<noteq> [] \<Longrightarrow>
           parseSseEvents_from datetime b chunks =
             concat (map (payloadEvents datetime) (dataLines p))"
proof (induction chunks arbitrary: b)
  case Nil
  then show ?case by simp
next
  case (Cons c cs)
  show ?case
  proof (cases "concat cs = []")
    case True
    have "b @ c = p @ ''\<newline>\<newline>''" using Cons.prems(1) unfolding concat.simps True by simp
    then show ?thesis
      using drainEvents_frame [OF assms] parseSseEvents_from_idle [OF True] by simp
  next
    case False
    have "(b @ c) @ concat cs = p @ ''\<newline>\<newline>''" using Cons.prems(1) by simp
    from partial_frame [OF assms this False]
    have "drainEvents datetime (b @ c) = ([], b @ c)" using drainEvents_waiting by blast
    moreover have "parseSseEvents_from datetime (b @ c) cs =
        concat (map (payloadEvents datetime) (dataLines p))"
      using Cons.IH [of "b @ c"] Cons.prems(1) False by simp
    ultimately show ?thesis by simp
  qed
qed

text \<open>
  What the decoders make of the frame of an event that its schema rejects. Such an event
  is never read back: the client yields the JSON text of the event as a token; the decoder
  of the provider SDK yields a token with the text of a \<^verbatim>\<open>message_end\<close> event and
  nothing for the other events.
\<close>

lemma safeParse_attachment_invalid:
  "\<not> validAttachment a \<Longrightarrow> AttachmentSchema_safeParse (attachment_to_json a) = None"
proof (cases a)
  case (Attachment i k n m s u d)
  assume "\<not> validAttachment a"
  then have v: "i = Some [] \<or> n = [] \<or> m = Some [] \<or> u = Some [] \<or> d = Some []"
    unfolding Attachment by simp
  have kn: "parseAttachmentKind (attachmentKindName k) = Some k"
    by (cases k) (simp_all add: parseAttachmentKind_def)
  show ?thesis unfolding Attachment using v kn
    by (cases i; cases m; cases s; cases u; cases d)
       (auto simp add: AttachmentSchema_safeParse_def optionalProp_def optStringMin1_def
          reqString_def reqStringMin1_def optNonnegInt_def)
qed

lemma safeParse_event_invalid:
  "\<not> validEvent datetime e \<Longrightarrow> StreamEventSchema_safeParse datetime (event_to_json e) = None"
proof (cases e)
  case (AttachmentEvent a)
  assume "\<not> validEvent datetime e"
  then show ?thesis unfolding AttachmentEvent
    by (simp add: StreamEventSchema_safeParse_def reqString_def safeParse_attachment_invalid
        del: attachment_to_json.simps)
next
  case (MessageEnd mid t st c)
  assume "\<not> validEvent datetime e"
  moreover have "parseMessageStatus (messageStatusName st) = Some st"
    by (cases st) (simp_all add: parseMessageStatus_def)
  ultimately show ?thesis unfolding MessageEnd
    by (auto simp add: StreamEventSchema_safeParse_def reqString_def reqStringMin1_def reqDatetime_def)
qed (auto simp add: StreamEventSchema_safeParse_def reqString_def reqStringMin1_def
      reqDatetime_def reqBool_def boolDefault_def)

lemma decode_event_invalid:
  assumes "\<not> validEvent datetime e"
  shows "chatStreamData datetime (JSON_stringify_event e) = [Token (JSON_stringify_event e)]"
    and "payloadEvents datetime (JSON_stringify_event e) =
           (case e of MessageEnd mid t st c \<Rightarrow> [Token t] | _ \<Rightarrow> [])"
proof -
  have p: "JSON_parse (JSON_stringify_event e) = Some (event_to_json e)"
    unfolding JSON_stringify_event_def by (rule JSON_parse_stringify [OF writable_event])
  obtain t where t: "JSON_stringify_event e = CHR ''{'' # t"
    using JSON_stringify_event_starts by blast
  then have n: "JSON_stringify_event e \<noteq> []" "JSON_stringify_event e \<noteq> ''[DONE]''" by simp_all
  show "chatStreamData datetime (JSON_stringify_event e) = [Token (JSON_stringify_event e)]"
    using p n safeParse_event_invalid [OF assms] by (simp add: chatStreamData_def)
  have s: "(case stringProperty (event_to_json e) ''text'' of
              Some t \<Rightarrow> [Token t]
            | None \<Rightarrow> (case stringProperty (event_to_json e) ''token'' of
                          Some t \<Rightarrow> [Token t] | None \<Rightarrow> [])) =
           (case e of MessageEnd mid t st c \<Rightarrow> [Token t] | _ \<Rightarrow> [])"
    using assms by (cases e) (simp_all add: stringProperty_def)
  show "payloadEvents datetime (JSON_stringify_event e) =
           (case e of MessageEnd mid t st c \<Rightarrow> [Token t] | _ \<Rightarrow> [])"
    using p n safeParse_event_invalid [OF assms] s by (simp add: payloadEvents_def)
qed

lemma sse_frame_decoded:
  assumes "concat chunks = writeSSE (JSON_stringify_event e)"
  shows "chatStream datetime chunks = chatStreamData datetime (JSON_stringify_event e)"
    and "parseSseEvents datetime chunks = payloadEvents datetime (JSON_stringify_event e)"
proof -
  let ?j = "JSON_stringify_event e"
  let ?p = "''data: '' @ ?j"
  have nb: "no_break ?p"
    unfolding JSON_stringify_event_def using no_break_stringify by simp
  have j: "no_break ?j" "?j \<noteq> []"
    using nb event_text_shape [of e] by auto
  have c: "[] @ concat chunks = ?p @ ''\<newline>\<newline>''" "concat chunks \<noteq> []"
    using assms by (simp_all add: writeSSE_def)
  have d: "parseSsePayloadFromText ?p = [?j]" "dataLines ?p = [?j]"
    using frame_data [OF j(1) trim_event_text j(2)] by simp_all
  have "parseSseData chunks = [?j]"
    unfolding parseSseData_def using parseSseData_from_frame [OF nb c] d(1) by simp
  then show "chatStream datetime chunks = chatStreamData datetime ?j"
    by (simp add: chatStream_def)
  show "parseSseEvents datetime chunks = payloadEvents datetime ?j"
    unfolding parseSseEvents_def using parseSseEvents_from_frame [OF nb c] d(2) by simp
qed

lemma invalid_event_not_read_back:
  assumes "concat chunks = writeSSE (JSON_stringify_event e)"
    and "\<not> validEvent datetime e"
  shows "chatStream datetime chunks = [Token (JSON_stringify_event e)]"
    and "chatStream datetime chunks \<noteq> [e]"
    and "parseSseEvents datetime chunks \<noteq> [e]"
proof -
  show a: "chatStream datetime chunks = [Token (JSON_stringify_event e)]"
    using sse_frame_decoded(1) [OF assms(1)] decode_event_invalid(1) [OF assms(2)] by simp
  have nt: "\<And>t. e \<noteq> Token t" using assms(2) by auto
  have "Token (JSON_stringify_event e) \<noteq> e"
    using nt [of "JSON_stringify_event e"] by (rule not_sym)
  then show "chatStream datetime chunks \<noteq> [e]" using a by simp
  have "parseSseEvents datetime chunks = (case e of MessageEnd mid t st c \<Rightarrow> [Token t] | _ \<Rightarrow> [])"
    using sse_frame_decoded(2) [OF assms(1)] decode_event_invalid(2) [OF assms(2)] by simp
  then show "parseSseEvents datetime chunks \<noteq> [e]" using nt by (cases e) auto
qed

text \<open>
  C2, as stated, fails. When a provider fails with an error whose message is empty, the
  handler of the agent server writes the error event with code \<^verbatim>\<open>provider_error\<close> and
  an empty message. \<^verbatim>\<open>ErrorEventSchema\<close> asks for a message of at least one character,
  so the decoders do not accept the frame as an event: the client yields its JSON text as a
  token, and the decoder of the provider SDK yields nothing, however the frame is split.
\<close>

theorem sse_round_trip_empty_message_counterexample:
  \<open>\<not> validEvent isoDatetime (ErrorEvent ''provider_error'' [] False) \<and>
   chatStreamWrites ([], Some (ErrorThrown [])) =
     [JSON_stringify_event (ErrorEvent ''provider_error'' [] False)] \<and>
   chatStream isoDatetime [writeSSE (JSON_stringify_event (ErrorEvent ''provider_error'' [] False))] =
     [Token ''{"type":"error","code":"provider_error","message":"","retryable":false}''] \<and>
   chatStream isoDatetime [writeSSE (JSON_stringify_event (ErrorEvent ''provider_error'' [] False))] \<noteq>
     [ErrorEvent ''provider_error'' [] False] \<and>
   parseSseEvents isoDatetime [writeSSE (JSON_stringify_event (ErrorEvent ''provider_error'' [] False))] = [] \<and>
   parseSseEvents isoDatetime
     [''data: {"type":"error","code":"provider_error",'', ''"message":"","retryable":false}\<newline>\<newline>''] = []\<close>
  by code_simp

text \<open>
  C2, amended. For every event that satisfies its schema and for every list of chunks
  whose concatenation is the frame the encoder writes for the event (one \<^verbatim>\<open>data:\<close>
  line with the JSON text of the event, then a blank line), the client's decoder and the
  decoder of the provider SDK both yield exactly that event.
\<close>

theorem sse_round_trip:
  assumes "validEvent datetime e"
    and "concat chunks = writeSSE (JSON_stringify_event e)"
  shows "chatStream datetime chunks = [e] \<and> parseSseEvents datetime chunks = [e]"
proof -
  let ?j = "JSON_stringify_event e"
  let ?p = "''data: '' @ ?j"
  have nb: "no_break ?p"
    unfolding JSON_stringify_event_def using no_break_stringify by simp
  have j: "no_break ?j" "?j \<noteq> []"
    using nb event_text_shape [of e] by auto
  have c: "[] @ concat chunks = ?p @ ''\<newline>\<newline>''" "concat chunks \<noteq> []"
    using assms(2) by (simp_all add: writeSSE_def)
  have d: "parseSsePayloadFromText ?p = [?j]" "dataLines ?p = [?j]"
    using frame_data [OF j(1) trim_event_text j(2)] by simp_all
  have "parseSseData chunks = [?j]"
    unfolding parseSseData_def using parseSseData_from_frame [OF nb c] d(1) by simp
  moreover have "parseSseEvents datetime chunks = concat (map (payloadEvents datetime) [?j])"
    unfolding parseSseEvents_def using parseSseEvents_from_frame [OF nb c] d(2) by simp
  ultimately show ?thesis
    using decode_event [OF assms(1)] by (simp add: chatStream_def)
qed

theorem sse_round_trip_witness:
  \<open>validEvent isoDatetime (MessageStart ''m-1'' ''thread-1'' ''2026-01-02T03:04:05.678Z'') \<and>
   concat [''data: {"type":"mess'', [],
           ''age_start","messageId":"m-1","threadId":"thread-1","createdAt":"2026-01-02T03:04:05.678Z"}\<newline>'',
           ''\<newline>''] =
     writeSSE (JSON_stringify_event (MessageStart ''m-1'' ''thread-1'' ''2026-01-02T03:04:05.678Z'')) \<and>
   chatStream isoDatetime
     [''data: {"type":"mess'', [],
      ''age_start","messageId":"m-1","threadId":"thread-1","createdAt":"2026-01-02T03:04:05.678Z"}\<newline>'',
      ''\<newline>''] =
     [MessageStart ''m-1'' ''thread-1'' ''2026-01-02T03:04:05.678Z''] \<and>
   parseSseEvents isoDatetime
     [''data: {"type":"mess'', [],
      ''age_start","messageId":"m-1","threadId":"thread-1","createdAt":"2026-01-02T03:04:05.678Z"}\<newline>'',
      ''\<newline>''] =
     [MessageStart ''m-1'' ''thread-1'' ''2026-01-02T03:04:05.678Z'']\<close>
proof -
  let ?e = \<open>MessageStart ''m-1'' ''thread-1'' ''2026-01-02T03:04:05.678Z''\<close>
  let ?chunks = \<open>[''data: {"type":"mess'', [],
      ''age_start","messageId":"m-1","threadId":"thread-1","createdAt":"2026-01-02T03:04:05.678Z"}\<newline>'',
      ''\<newline>'']\<close>
  have v: \<open>validEvent isoDatetime ?e\<close> by code_simp
  have c: \<open>concat ?chunks = writeSSE (JSON_stringify_event ?e)\<close> by code_simp
  from sse_round_trip [OF v c] v c show ?thesis by simp
qed

end
